theory Spec2Isabelle
  imports Main "HOL-Library.Sublist"
begin

section \<open>Python strings\<close>

text \<open>
  Text is a list of characters with code points below 256. \<open>isspace\<close> is Python's
  \<^verbatim>\<open>str.isspace\<close> on that range; the regular-expression class \<^verbatim>\<open>\s\<close> of a \<^verbatim>\<open>str\<close>
  pattern tests the same predicate.
\<close>

definition NL :: char where
  "NL = CHR 0x0A"

definition isspace :: "char \<Rightarrow> bool" where
  "isspace c = (c \<in> {CHR 0x09, CHR 0x0A, CHR 0x0B, CHR 0x0C, CHR 0x0D,
                      CHR 0x1C, CHR 0x1D, CHR 0x1E, CHR 0x1F, CHR 0x20, CHR 0x85, CHR 0xA0})"

definition lstrip :: "string \<Rightarrow> string" where
  "lstrip s = dropWhile isspace s"

definition rstrip :: "string \<Rightarrow> string" where
  "rstrip s = rev (dropWhile isspace (rev s))"

text \<open>\<^verbatim>\<open>s.strip()\<close>\<close>

definition strip :: "string \<Rightarrow> string" where
  "strip s = rstrip (lstrip s)"

text \<open>\<^verbatim>\<open>s.startswith(p)\<close>\<close>

fun startswith :: "string \<Rightarrow> string \<Rightarrow> bool" where
  "startswith [] s = True"
| "startswith (a # p) [] = False"
| "startswith (a # p) (c # s) = (a = c \<and> startswith p s)"

text \<open>Prepend a character to the first piece of a list of pieces.\<close>

fun cons_first :: "char \<Rightarrow> string list \<Rightarrow> string list" where
  "cons_first c [] = [[c]]"
| "cons_first c (x # xs) = (c # x) # xs"

text \<open>
  \<^verbatim>\<open>s.split(sep)\<close> for a non-empty separator: the occurrences are found from the left and
  do not overlap. (Python raises \<^verbatim>\<open>ValueError\<close> on an empty separator; the program only
  splits on two newlines.)
\<close>

function str_split :: "string \<Rightarrow> string \<Rightarrow> string list" where
  "str_split sep [] = [[]]"
| "str_split sep (c # s) =
     (if sep \<noteq> [] \<and> startswith sep (c # s)
      then [] # str_split sep (drop (length sep) (c # s))
      else cons_first c (str_split sep s))"
  by pat_completeness auto
termination
  by (relation "measure (\<lambda>(sep, s). length s)") auto

text \<open>\<^verbatim>\<open>sep.join(xs)\<close>\<close>

fun str_join :: "string \<Rightarrow> string list \<Rightarrow> string" where
  "str_join sep [] = []"
| "str_join sep [x] = x"
| "str_join sep (x # y # xs) = x @ sep @ str_join sep (y # xs)"

section \<open>The regular expressions of the program\<close>

text \<open>
  The patterns of the program are sequences of single characters, the anchors \<^verbatim>\<open>^\<close> and
  \<^verbatim>\<open>$\<close> (always under \<^verbatim>\<open>re.MULTILINE\<close>), one capturing group, and the quantifiers
  \<^verbatim>\<open>+\<close> (greedy) and \<^verbatim>\<open>+?\<close> (lazy) on a character class. \<open>rmatch\<close> is the backtracking
  matcher of Python's \<^verbatim>\<open>re\<close> on this fragment: it matches a pattern at the head of the text
  and returns the text of group 1, whether the position after the match follows a
  newline, and the rest of the text.

  \<open>bol\<close> says that the current position is the start of the text or follows a newline
  (where \<^verbatim>\<open>^\<close> matches); \<open>opn\<close> says that the group is open and \<open>g\<close> is what it has
  captured so far.
\<close>

datatype atom = Lit char | Space | Dot

fun atom_ok :: "atom \<Rightarrow> char \<Rightarrow> bool" where
  "atom_ok (Lit a) c = (c = a)"
| "atom_ok Space c = isspace c"
| "atom_ok Dot c = (c \<noteq> NL)"

datatype re_item = One atom | PlusG atom | PlusL atom | Bol | Eol | GOpen | GClose

fun at_eol :: "string \<Rightarrow> bool" where
  "at_eol [] = True"
| "at_eol (c # s) = (c = NL)"

fun rmatch :: "re_item list \<Rightarrow> bool \<Rightarrow> bool \<Rightarrow> string \<Rightarrow> string \<Rightarrow> (string \<times> bool \<times> string) option" where
  "rmatch [] bol opn g s = Some (g, bol, s)"
| "rmatch (Bol # r) bol opn g s = (if bol then rmatch r bol opn g s else None)"
| "rmatch (Eol # r) bol opn g s = (if at_eol s then rmatch r bol opn g s else None)"
| "rmatch (GOpen # r) bol opn g s = rmatch r bol True [] s"
| "rmatch (GClose # r) bol opn g s = rmatch r bol False g s"
| "rmatch (One a # r) bol opn g [] = None"
| "rmatch (One a # r) bol opn g (c # s) =
     (if atom_ok a c then rmatch r (c = NL) opn (if opn then g @ [c] else g) s else None)"
| "rmatch (PlusG a # r) bol opn g [] = None"
| "rmatch (PlusG a # r) bol opn g (c # s) =
     (if atom_ok a c
      then (case rmatch (PlusG a # r) (c = NL) opn (if opn then g @ [c] else g) s of
              Some m \<Rightarrow> Some m
            | None \<Rightarrow> rmatch r (c = NL) opn (if opn then g @ [c] else g) s)
      else None)"
| "rmatch (PlusL a # r) bol opn g [] = None"
| "rmatch (PlusL a # r) bol opn g (c # s) =
     (if atom_ok a c
      then (case rmatch r (c = NL) opn (if opn then g @ [c] else g) s of
              Some m \<Rightarrow> Some m
            | None \<Rightarrow> rmatch (PlusL a # r) (c = NL) opn (if opn then g @ [c] else g) s)
      else None)"

text \<open>
  \<^verbatim>\<open>re.sub(pat, repl, s)\<close>: the leftmost match is replaced and the search goes on after
  it. \<open>repl\<close> maps the text of group 1 to the replacement. Every pattern of the program
  consumes at least one character; the branch for an empty match (the replacement, then
  the next character copied) is never taken by them.
\<close>

function re_sub :: "re_item list \<Rightarrow> (string \<Rightarrow> string) \<Rightarrow> bool \<Rightarrow> string \<Rightarrow> string" where
  "re_sub pat repl bol s =
     (case rmatch pat bol False [] s of
        Some (g, bol', rest) \<Rightarrow>
          if length rest < length s then repl g @ re_sub pat repl bol' rest
          else (case s of [] \<Rightarrow> repl g | c # s' \<Rightarrow> repl g @ c # re_sub pat repl (c = NL) s')
      | None \<Rightarrow> (case s of [] \<Rightarrow> [] | c # s' \<Rightarrow> c # re_sub pat repl (c = NL) s'))"
  by pat_completeness auto
termination
  by (relation "measure (\<lambda>(pat, repl, bol, s). length s)") auto

text \<open>
  \<^verbatim>\<open>re.split(pat, s)\<close> for a pattern with one group: the pieces between the matches,
  with the text of the group after each piece but the last.
\<close>

function re_split :: "re_item list \<Rightarrow> bool \<Rightarrow> string \<Rightarrow> string list" where
  "re_split pat bol s =
     (case rmatch pat bol False [] s of
        Some (g, bol', rest) \<Rightarrow>
          if length rest < length s then [] # g # re_split pat bol' rest
          else (case s of [] \<Rightarrow> [[], g, []]
                | c # s' \<Rightarrow> [] # g # cons_first c (re_split pat (c = NL) s'))
      | None \<Rightarrow> (case s of [] \<Rightarrow> [[]] | c # s' \<Rightarrow> cons_first c (re_split pat (c = NL) s')))"
  by pat_completeness auto
termination
  by (relation "measure (\<lambda>(pat, bol, s). length s)") auto

text \<open>\<^verbatim>\<open>^#\s+(.+)$\<close>, \<^verbatim>\<open>^##\s+(.+)$\<close>, \<^verbatim>\<open>^###\s+(.+)$\<close>\<close>

definition h1_pat :: "re_item list" where
  "h1_pat = [Bol, One (Lit CHR ''#''), PlusG Space, GOpen, PlusG Dot, GClose, Eol]"

definition h2_pat :: "re_item list" where
  "h2_pat = [Bol, One (Lit CHR ''#''), One (Lit CHR ''#''), PlusG Space,
             GOpen, PlusG Dot, GClose, Eol]"

definition h3_pat :: "re_item list" where
  "h3_pat = [Bol, One (Lit CHR ''#''), One (Lit CHR ''#''), One (Lit CHR ''#''), PlusG Space,
             GOpen, PlusG Dot, GClose, Eol]"

text \<open>\<^verbatim>\<open>\*\*(.+?)\*\*\<close>, \<^verbatim>\<open>\*(.+?)\*\<close>, \<^verbatim>\<open>__(.+?)__\<close>\<close>

definition bold_pat :: "re_item list" where
  "bold_pat = [One (Lit CHR ''*''), One (Lit CHR ''*''), GOpen, PlusL Dot, GClose,
               One (Lit CHR ''*''), One (Lit CHR ''*'')]"

definition italic_pat :: "re_item list" where
  "italic_pat = [One (Lit CHR ''*''), GOpen, PlusL Dot, GClose, One (Lit CHR ''*'')]"

definition underline_pat :: "re_item list" where
  "underline_pat = [One (Lit CHR ''_''), One (Lit CHR ''_''), GOpen, PlusL Dot, GClose,
                    One (Lit CHR ''_''), One (Lit CHR ''_'')]"

text \<open>\<^verbatim>\<open>^=== (.+?) ===$\<close>\<close>

definition delim_pat :: "re_item list" where
  "delim_pat = [Bol, One (Lit CHR ''=''), One (Lit CHR ''=''), One (Lit CHR ''=''),
                One (Lit CHR '' ''), GOpen, PlusL Dot, GClose, One (Lit CHR '' ''),
                One (Lit CHR ''=''), One (Lit CHR ''=''), One (Lit CHR ''=''), Eol]"

section \<open>Markup to HTML\<close>

text \<open>The replacement templates \<^verbatim>\<open><h1>\1</h1>\<close> and so on.\<close>

definition tagged :: "string \<Rightarrow> string \<Rightarrow> string" where
  "tagged name g = ''<'' @ name @ ''>'' @ g @ ''</'' @ name @ ''>''"

text \<open>The three heading substitutions, then the three inline ones, in the order of the source.\<close>

definition convert_headings :: "string \<Rightarrow> string" where
  "convert_headings text =
     re_sub h3_pat (tagged ''h3'') True
       (re_sub h2_pat (tagged ''h2'') True
         (re_sub h1_pat (tagged ''h1'') True text))"

definition convert_formatting :: "string \<Rightarrow> string" where
  "convert_formatting text =
     re_sub underline_pat (tagged ''u'') True
       (re_sub italic_pat (tagged ''em'') True
         (re_sub bold_pat (tagged ''strong'') True text))"

text \<open>
  The loop over the paragraphs: \<open>html_paragraphs\<close> is the list built so far.
\<close>

fun paragraph_loop :: "string list \<Rightarrow> string list \<Rightarrow> string list" where
  "paragraph_loop [] html_paragraphs = html_paragraphs"
| "paragraph_loop (p # ps) html_paragraphs =
     (let p = strip p in
      if p \<noteq> [] \<and> \<not> startswith ''<h'' p
      then paragraph_loop ps (html_paragraphs @ [''<p>'' @ p @ ''</p>''])
      else if p \<noteq> [] then paragraph_loop ps (html_paragraphs @ [p])
      else paragraph_loop ps html_paragraphs)"

text \<open>The list \<open>html_paragraphs\<close> at the end of the loop, and the paragraph step.\<close>

definition html_paragraphs :: "string \<Rightarrow> string list" where
  "html_paragraphs text = paragraph_loop (str_split [NL, NL] text) []"

definition convert_paragraphs :: "string \<Rightarrow> string" where
  "convert_paragraphs text = str_join [NL] (html_paragraphs text)"

text \<open>\<^verbatim>\<open>_markdown_to_html\<close>\<close>

definition markdown_to_html :: "string \<Rightarrow> string" where
  "markdown_to_html text = convert_paragraphs (convert_formatting (convert_headings text))"

section \<open>The paragraph step in the words of the specification\<close>

text \<open>
  A block that starts with the two characters \<^verbatim>\<open><h\<close> is kept as it is; any other block
  is put into one paragraph element.
\<close>

definition wrap_block :: "string \<Rightarrow> string" where
  "wrap_block b = (if startswith ''<h'' b then b else ''<p>'' @ b @ ''</p>'')"

text \<open>
  The text is split at two consecutive newlines, each block is trimmed, the empty ones
  are dropped and the others wrapped.
\<close>

definition wrapped_blocks :: "string \<Rightarrow> string list" where
  "wrapped_blocks text =
     map wrap_block (filter (\<lambda>b. b \<noteq> []) (map strip (str_split [NL, NL] text)))"

text \<open>The opening tags of the six heading elements.\<close>

definition heading_tags :: "string list" where
  "heading_tags = [''<h1>'', ''<h2>'', ''<h3>'', ''<h4>'', ''<h5>'', ''<h6>'']"

definition starts_with_heading_tag :: "string \<Rightarrow> bool" where
  "starts_with_heading_tag b = list_ex (\<lambda>t. startswith t b) heading_tags"

section \<open>HTML to markup\<close>

text \<open>
  The tree that the HTML parser returns: text nodes and elements with a tag name and
  children. A parsed document (the \<^verbatim>\<open>soup\<close>) is the list of its top-level nodes.
\<close>

datatype node = Text string | Tag string "node list"

text \<open>\<^verbatim>\<open>element.get_text()\<close>: the text nodes below the element, concatenated.\<close>

fun get_text :: "node \<Rightarrow> string" where
  "get_text (Text s) = s"
| "get_text (Tag name children) = concat (map get_text children)"

text \<open>The elements of a subtree in document order, the root first.\<close>

fun elements :: "node \<Rightarrow> node list" where
  "elements (Text s) = []"
| "elements (Tag name children) = Tag name children # concat (map elements children)"

fun tag_name :: "node \<Rightarrow> string" where
  "tag_name (Text s) = []"
| "tag_name (Tag name children) = name"

text \<open>\<^verbatim>\<open>soup.find_all(names)\<close> and \<^verbatim>\<open>soup.find(name)\<close>\<close>

definition find_all :: "string list \<Rightarrow> node list \<Rightarrow> node list" where
  "find_all names soup = filter (\<lambda>e. tag_name e \<in> set names) (concat (map elements soup))"

definition soup_find :: "string \<Rightarrow> node list \<Rightarrow> node option" where
  "soup_find name soup = (case find_all [name] soup of [] \<Rightarrow> None | e # es \<Rightarrow> Some e)"

text \<open>\<^verbatim>\<open>int(c)\<close> for a decimal digit \<open>c\<close>.\<close>

definition int_of_digit :: "char \<Rightarrow> nat" where
  "int_of_digit c = of_char c - 48"

text \<open>What one element of the scan adds to \<open>content\<close>.\<close>

definition element_markdown :: "node \<Rightarrow> string" where
  "element_markdown element =
     (if tag_name element \<in> set [''h1'', ''h2'', ''h3'', ''h4'', ''h5'', ''h6'']
      then replicate (int_of_digit (tag_name element ! 1)) CHR ''#'' @ '' ''
             @ strip (get_text element) @ [NL, NL]
      else if tag_name element = ''p''
      then (if strip (get_text element) \<noteq> [] then strip (get_text element) @ [NL, NL] else [])
      else if tag_name element \<in> set [''strong'', ''b'']
      then ''**'' @ strip (get_text element) @ ''**''
      else if tag_name element \<in> set [''em'', ''i'']
      then ''*'' @ strip (get_text element) @ ''*''
      else if tag_name element = ''u''
      then ''__'' @ strip (get_text element) @ ''__''
      else [])"

text \<open>\<^verbatim>\<open>_html_to_markdown\<close>\<close>

definition html_to_markdown :: "node list \<Rightarrow> string" where
  "html_to_markdown soup =
     strip (foldl (\<lambda>content element. content @ element_markdown element) []
              (find_all [''h1'', ''h2'', ''h3'', ''h4'', ''h5'', ''h6'', ''p'', ''strong'', ''b'',
                         ''em'', ''i'', ''u''] soup))"

section \<open>The book and its chapters\<close>

text \<open>
  The book holds its items in order; an item has a type and a content. A chapter refers to
  its item by the position of the item in the book, so that writing through the chapter
  changes the book. The content of an item is modelled as text (the source encodes it as
  UTF-8 when it writes it). The HTML parser is a parameter \<open>parse\<close>.
\<close>

datatype item_type = ITEM_DOCUMENT | ITEM_OTHER

record epub_item =
  get_type :: item_type
  get_content :: string

record book_chapter =
  item :: nat
  title :: string
  content :: string

record editor =
  current_book :: "epub_item list"
  chapters :: "book_chapter list"
  current_chapter_index :: int
  view_mode :: string
  editor_text :: string

text \<open>\<^verbatim>\<open>str(n)\<close> for a natural number.\<close>

definition digit_char :: "nat \<Rightarrow> char" where
  "digit_char d = char_of (48 + d)"

function str_nat :: "nat \<Rightarrow> string" where
  "str_nat n = (if n < 10 then [digit_char n] else str_nat (n div 10) @ [digit_char (n mod 10)])"
  by pat_completeness auto
termination
  by (relation "measure id") auto

text \<open>
  The loop of \<^verbatim>\<open>_load_epub_file\<close> over the items of the book: \<open>pos\<close> is the position of
  the current item, \<open>chs\<close> the chapters found so far.
\<close>

definition chapter_title :: "node list \<Rightarrow> nat \<Rightarrow> string" where
  "chapter_title soup n =
     (case soup_find ''title'' soup of
        Some t \<Rightarrow> strip (get_text t)
      | None \<Rightarrow> ''Chapter '' @ str_nat (n + 1))"

fun extract_chapters ::
  "(string \<Rightarrow> node list) \<Rightarrow> epub_item list \<Rightarrow> nat \<Rightarrow> book_chapter list \<Rightarrow> book_chapter list" where
  "extract_chapters parse [] pos chs = chs"
| "extract_chapters parse (it # items) pos chs =
     (if get_type it = ITEM_DOCUMENT
      then extract_chapters parse items (pos + 1)
             (chs @ [\<lparr>item = pos,
                      title = chapter_title (parse (get_content it)) (length chs),
                      content = concat (map get_text (parse (get_content it)))\<rparr>])
      else extract_chapters parse items (pos + 1) chs)"

text \<open>\<^verbatim>\<open>_load_chapter\<close> and \<^verbatim>\<open>_load_full_book\<close> fill the editor.\<close>

definition chapter_markdown :: "(string \<Rightarrow> node list) \<Rightarrow> epub_item list \<Rightarrow> book_chapter \<Rightarrow> string" where
  "chapter_markdown parse book ch = html_to_markdown (parse (get_content (book ! item ch)))"

definition load_chapter :: "(string \<Rightarrow> node list) \<Rightarrow> int \<Rightarrow> editor \<Rightarrow> editor" where
  "load_chapter parse index st =
     (if 0 \<le> index \<and> index < int (length (chapters st))
      then st\<lparr>editor_text := chapter_markdown parse (current_book st) (chapters st ! nat index)\<rparr>
      else st)"

definition full_content :: "(string \<Rightarrow> node list) \<Rightarrow> epub_item list \<Rightarrow> book_chapter list \<Rightarrow> string" where
  "full_content parse book chs =
     foldl (\<lambda>full ch. full @ ''=== '' @ title ch @ '' ==='' @ [NL, NL]
                         @ chapter_markdown parse book ch @ [NL, NL]) [] chs"

definition load_full_book :: "(string \<Rightarrow> node list) \<Rightarrow> editor \<Rightarrow> editor" where
  "load_full_book parse st =
     (if chapters st = [] then st
      else st\<lparr>editor_text := strip (full_content parse (current_book st) (chapters st))\<rparr>)"

text \<open>\<^verbatim>\<open>_load_epub_file\<close>, without the labels of the window.\<close>

definition load_epub_file :: "(string \<Rightarrow> node list) \<Rightarrow> epub_item list \<Rightarrow> editor \<Rightarrow> editor" where
  "load_epub_file parse book st =
     (let st1 = st\<lparr>current_book := book, chapters := extract_chapters parse book 0 []\<rparr> in
      if chapters st1 \<noteq> []
      then (let st2 = st1\<lparr>current_chapter_index := 0\<rparr> in
            if view_mode st2 = ''chapter'' then load_chapter parse 0 st2
            else load_full_book parse st2)
      else st1)"

section \<open>Saving\<close>

text \<open>
  \<^verbatim>\<open>self.editor_text.get(1.0, tk.END)\<close>: the text of the widget, which always ends with
  the newline the widget adds.
\<close>

definition editor_get :: "editor \<Rightarrow> string" where
  "editor_get st = editor_text st @ [NL]"

text \<open>
  The document written for a chapter: the f-string of the source, whose lines are indented
  by \<open>ind\<close> spaces (20 in chapter mode, 24 in full-book mode).
\<close>

definition full_html_doc :: "nat \<Rightarrow> string \<Rightarrow> string \<Rightarrow> string" where
  "full_html_doc ind ttl html_content =
     [NL] @ replicate ind CHR '' '' @ ''<html>'' @ [NL]
     @ replicate ind CHR '' '' @ ''<head>'' @ [NL]
     @ replicate (ind + 4) CHR '' '' @ ''<title>'' @ ttl @ ''</title>'' @ [NL]
     @ replicate ind CHR '' '' @ ''</head>'' @ [NL]
     @ replicate ind CHR '' '' @ ''<body>'' @ [NL]
     @ replicate (ind + 4) CHR '' '' @ html_content @ [NL]
     @ replicate ind CHR '' '' @ ''</body>'' @ [NL]
     @ replicate ind CHR '' '' @ ''</html>'' @ [NL]
     @ replicate ind CHR '' ''"

text \<open>\<^verbatim>\<open>item.set_content(...)\<close> on the item at position \<open>i\<close> of the book.\<close>

definition set_content :: "epub_item list \<Rightarrow> nat \<Rightarrow> string \<Rightarrow> epub_item list" where
  "set_content book i c = book[i := (book ! i)\<lparr>get_content := c\<rparr>]"

text \<open>\<^verbatim>\<open>range(start, stop, step)\<close> for a positive step.\<close>

function range_from :: "nat \<Rightarrow> nat \<Rightarrow> nat \<Rightarrow> nat list" where
  "range_from i stop step =
     (if i < stop \<and> 0 < step then i # range_from (i + step) stop step else [])"
  by pat_completeness auto
termination
  by (relation "measure (\<lambda>(i, stop, step). stop - i)") auto

text \<open>
  The loop of the full-book branch of \<^verbatim>\<open>_save_epub_to_path\<close>: \<open>is\<close> are the values of
  \<open>i\<close> still to come.
\<close>

fun save_loop ::
  "book_chapter list \<Rightarrow> string list \<Rightarrow> nat list \<Rightarrow> nat \<Rightarrow> epub_item list \<Rightarrow> epub_item list" where
  "save_loop chs chapter_sections [] chapter_index book = book"
| "save_loop chs chapter_sections (i # is) chapter_index book =
     (if chapter_index < length chs
      then save_loop chs chapter_sections is (chapter_index + 1)
             (set_content book (item (chs ! chapter_index))
                (full_html_doc 24 (title (chs ! chapter_index))
                   (markdown_to_html
                      (if i + 1 < length chapter_sections
                       then strip (chapter_sections ! (i + 1)) else []))))
      else save_loop chs chapter_sections is chapter_index book)"

text \<open>
  \<^verbatim>\<open>_save_epub_to_path\<close>: what it does to the book in memory. The source then hands the
  book to the EPUB library, which writes the file.
\<close>

definition save_epub_to_path :: "editor \<Rightarrow> editor" where
  "save_epub_to_path st =
     (if view_mode st = ''chapter''
      then (if chapters st \<noteq> [] \<and> 0 \<le> current_chapter_index st
               \<and> current_chapter_index st < int (length (chapters st))
            then st\<lparr>current_book :=
                      set_content (current_book st)
                        (item (chapters st ! nat (current_chapter_index st)))
                        (full_html_doc 20 (title (chapters st ! nat (current_chapter_index st)))
                           (markdown_to_html (strip (editor_get st))))\<rparr>
            else st)
      else st\<lparr>current_book :=
                save_loop (chapters st)
                  (re_split delim_pat True (strip (editor_get st)))
                  (range_from 1 (length (re_split delim_pat True (strip (editor_get st)))) 2)
                  0 (current_book st)\<rparr>)"

section \<open>Definitions for the statements about the chapter model\<close>

text \<open>
  The chapters refer to different items of the book. This holds after every load.
\<close>

definition wf_chapters :: "epub_item list \<Rightarrow> book_chapter list \<Rightarrow> bool" where
  "wf_chapters book chs = (distinct (map item chs) \<and> (\<forall>ch \<in> set chs. item ch < length book))"

text \<open>The document-type items of a book, in order.\<close>

definition documents :: "epub_item list \<Rightarrow> epub_item list" where
  "documents book = filter (\<lambda>it. get_type it = ITEM_DOCUMENT) book"

text \<open>The document that iteration \<open>i\<close> writes for chapter \<open>k\<close>.\<close>

definition section_doc :: "book_chapter list \<Rightarrow> string list \<Rightarrow> nat \<Rightarrow> nat \<Rightarrow> string" where
  "section_doc chs secs k i =
     full_html_doc 24 (title (chs ! k))
       (markdown_to_html (if i + 1 < length secs then strip (secs ! (i + 1)) else []))"

text \<open>
  The number of delimiter lines in a buffer (the captured titles are the pieces at the odd
  positions of the split), and the text that follows the \<open>(k+1)\<close>-th of them, up to the
  next delimiter.
\<close>

definition delimiters_found :: "string \<Rightarrow> nat" where
  "delimiters_found text = length (re_split delim_pat True text) div 2"

definition body_after :: "string \<Rightarrow> nat \<Rightarrow> string" where
  "body_after text k = re_split delim_pat True text ! (2 * k + 2)"

section \<open>An example book\<close>

text \<open>
  Three documents and a style sheet; the third document has no title element. The parser
  of the example knows these three documents only.
\<close>

definition example_parse :: "string \<Rightarrow> node list" where
  "example_parse s =
     (if s = ''<title>A</title><p>a</p>'' then [Tag ''title'' [Text ''A''], Tag ''p'' [Text ''a'']]
      else if s = ''<title>B</title><p>b</p>'' then [Tag ''title'' [Text ''B''], Tag ''p'' [Text ''b'']]
      else if s = ''<p>c</p>'' then [Tag ''p'' [Text ''c'']]
      else [])"

definition example_book :: "epub_item list" where
  "example_book =
     [\<lparr>get_type = ITEM_DOCUMENT, get_content = ''<title>A</title><p>a</p>''\<rparr>,
      \<lparr>get_type = ITEM_OTHER, get_content = ''body {}''\<rparr>,
      \<lparr>get_type = ITEM_DOCUMENT, get_content = ''<title>B</title><p>b</p>''\<rparr>,
      \<lparr>get_type = ITEM_DOCUMENT, get_content = ''<p>c</p>''\<rparr>]"

definition example_editor :: "string \<Rightarrow> editor" where
  "example_editor buffer =
     \<lparr>current_book = example_book,
      chapters = extract_chapters example_parse example_book 0 [],
      current_chapter_index = 0, view_mode = ''full_book'', editor_text = buffer\<rparr>"

text \<open>
  Three buffers: one with renamed delimiters, the buffer that the full-book view shows for
  the example, and that buffer with the delimiter line of chapter B deleted.
\<close>

definition renamed_buffer :: string where
  "renamed_buffer = ''=== X ==='' @ [NL] @ ''bodyX'' @ [NL] @ ''=== Y ==='' @ [NL] @ ''bodyY''"



section \<open>Definitions for the statements about the full-book buffer\<close>

text \<open>An item of a pattern that cannot consume a newline.\<close>

fun line_item :: "re_item \<Rightarrow> bool" where
  "line_item (One a) = (\<not> atom_ok a NL)"
| "line_item (PlusG a) = (\<not> atom_ok a NL)"
| "line_item (PlusL a) = (\<not> atom_ok a NL)"
| "line_item Bol = True"
| "line_item Eol = True"
| "line_item GOpen = True"
| "line_item GClose = True"

text \<open>The delimiter line that the join writes for a title.\<close>

definition delimiter_line :: "string \<Rightarrow> string" where
  "delimiter_line t = ''=== '' @ t @ '' ===''"

text \<open>
  The split of a text that ends a line, followed by the split of the next lines: the last
  piece of the first continues into the first piece of the second.
\<close>

definition glue :: "string list \<Rightarrow> string list \<Rightarrow> string list" where
  "glue xs ys = butlast xs @ [last xs @ hd ys] @ tl ys"

text \<open>
  A buffer as a list of titles, each with the text up to the next delimiter line: the
  titles are non-empty and have no line break, and every text but the last ends a line.
\<close>

fun line_segments :: "(string \<times> string) list \<Rightarrow> bool" where
  "line_segments [] = True"
| "line_segments ((t, p) # ps) =
     (t \<noteq> [] \<and> NL \<notin> set t \<and> at_eol p \<and> (ps = [] \<or> (p \<noteq> [] \<and> last p = NL))
      \<and> line_segments ps)"

definition joined :: "(string \<times> string) list \<Rightarrow> string" where
  "joined ps = concat (map (\<lambda>(t, p). delimiter_line t @ p) ps)"

text \<open>A book of one document whose title element is empty and whose paragraph reads like a delimiter line.\<close>

definition untitled_parse :: "string \<Rightarrow> node list" where
  "untitled_parse s =
     (if s = ''<title></title><p>=== x ===</p>''
      then [Tag ''title'' [], Tag ''p'' [Text ''=== x ==='']] else [])"

definition untitled_book :: "epub_item list" where
  "untitled_book = [\<lparr>get_type = ITEM_DOCUMENT, get_content = ''<title></title><p>=== x ===</p>''\<rparr>]"

definition untitled_editor :: editor where
  "untitled_editor =
     load_epub_file untitled_parse untitled_book
       \<lparr>current_book = [], chapters = [], current_chapter_index = 0,
        view_mode = ''full_book'', editor_text = []\<rparr>"

section \<open>Definitions for the statements about the round trip\<close>









section \<open>Facts about the string functions and the matcher\<close>

declare re_sub.simps [simp del] re_split.simps [simp del] str_split.simps [simp del]
  str_nat.simps [simp del] range_from.simps [simp del]

lemma rmatch_lit_absent: "a \<notin> set s \<Longrightarrow> rmatch (One (Lit a) # r) bol opn g s = None"
  by (cases s) auto

lemma rmatch_bol_lit_absent:
  "a \<notin> set s \<Longrightarrow> rmatch (Bol # One (Lit a) # r) bol opn g s = None"
  by (cases s) auto

text \<open>A substitution whose pattern matches nowhere returns the text as it is.\<close>

lemma re_sub_no_match:
  "(\<And>t b. suffix t s \<Longrightarrow> rmatch pat b False [] t = None) \<Longrightarrow> re_sub pat repl bol s = s"
proof (induction s arbitrary: bol)
  case Nil
  then show ?case by (subst re_sub.simps) simp
next
  case (Cons c s)
  have "rmatch pat bol False [] (c # s) = None" using Cons.prems by simp
  moreover have "re_sub pat repl (c = NL) s = s"
    by (rule Cons.IH) (simp add: Cons.prems suffix_ConsI)
  ultimately show ?case by (subst re_sub.simps) simp
qed

section \<open>Bold before italic\<close>

text \<open>
  C5 (as stated): the input \<^verbatim>\<open>**bold** and *italic*\<close> converts to exactly
  \<^verbatim>\<open><strong>bold</strong> and <em>italic</em>\<close>. The conversion as a whole does not
  return that text: its paragraph step wraps the block in a paragraph element.
\<close>

theorem C5_exact_output_counterexample:
  "markdown_to_html ''**bold** and *italic*'' \<noteq> ''<strong>bold</strong> and <em>italic</em>''"
  by code_simp

text \<open>
  C5 (amended): the bold rule runs before the italic rule; on the input
  \<^verbatim>\<open>**bold** and *italic*\<close> the inline substitutions give exactly
  \<^verbatim>\<open><strong>bold</strong> and <em>italic</em>\<close>, with no marker processed twice, and the
  conversion returns that text wrapped in one paragraph element.
\<close>

theorem C5_bold_before_italic:
  "convert_formatting ''**bold** and *italic*'' = ''<strong>bold</strong> and <em>italic</em>''
   \<and> markdown_to_html ''**bold** and *italic*''
       = ''<p><strong>bold</strong> and <em>italic</em></p>''"
  by code_simp

section \<open>The paragraph step\<close>

lemma paragraph_loop_eq:
  "paragraph_loop ps acc = acc @ map wrap_block (filter (\<lambda>b. b \<noteq> []) (map strip ps))"
  by (induction ps arbitrary: acc) (auto simp: Let_def wrap_block_def)

lemma html_paragraphs_eq: "html_paragraphs text = wrapped_blocks text"
  by (simp add: html_paragraphs_def wrapped_blocks_def paragraph_loop_eq)

text \<open>
  C6 (as stated): every non-empty trimmed block that does not start with a heading tag is
  wrapped in a paragraph element. The source tests the two characters \<^verbatim>\<open><h\<close> only, so
  the block \<^verbatim>\<open><hr/>\<close>, which starts with no heading tag, is emitted unwrapped.
\<close>

theorem C6_heading_tag_counterexample:
  "\<not> starts_with_heading_tag ''<hr/>'' \<and> strip ''<hr/>'' = ''<hr/>''
   \<and> markdown_to_html ''<hr/>'' = ''<hr/>''"
  by code_simp

text \<open>
  C6 (amended): for every input text, the paragraph step splits the text (after the
  heading and inline substitutions) at two consecutive newlines, trims each block, drops
  the empty ones, wraps each remaining block that does not start with \<^verbatim>\<open><h\<close> in exactly
  one \<^verbatim>\<open><p>...</p>\<close> pair, emits the blocks that start with \<^verbatim>\<open><h\<close> unwrapped, and joins
  the results with newlines.
\<close>

theorem C6_paragraph_wrapping:
  "markdown_to_html text
     = str_join [NL] (wrapped_blocks (convert_formatting (convert_headings text)))"
  by (simp add: markdown_to_html_def convert_paragraphs_def html_paragraphs_eq)

section \<open>No empty paragraph\<close>

lemma strip_all_space:
  assumes "\<forall>c\<in>set s. isspace c" shows "strip s = []"
proof -
  have "lstrip s = []" unfolding lstrip_def using assms by simp
  then show ?thesis by (simp add: strip_def rstrip_def)
qed




lemma re_sub_lit_absent:
  "a \<notin> set s \<Longrightarrow> re_sub (One (Lit a) # r) repl bol s = s"
  by (rule re_sub_no_match) (metis rmatch_lit_absent set_mono_suffix subsetD)

lemma re_sub_bol_lit_absent:
  "a \<notin> set s \<Longrightarrow> re_sub (Bol # One (Lit a) # r) repl bol s = s"
  by (rule re_sub_no_match) (metis rmatch_bol_lit_absent set_mono_suffix subsetD)

lemma convert_headings_no_hash: "CHR ''#'' \<notin> set s \<Longrightarrow> convert_headings s = s"
  by (simp add: convert_headings_def h1_pat_def h2_pat_def h3_pat_def re_sub_bol_lit_absent)




section \<open>Markers that cannot be paired\<close>

lemma plusl_dot_absent:
  "a \<notin> set b \<Longrightarrow> rmatch (PlusL Dot # GClose # One (Lit a) # r) bol opn g b = None"
  by (induction b arbitrary: bol g) (auto simp: rmatch_lit_absent)

lemma re_sub_skip_prefix:
  assumes "a \<notin> set p" and "\<And>bl. re_sub (One (Lit a) # r) repl bl s = s"
  shows "re_sub (One (Lit a) # r) repl bol (p @ s) = p @ s"
  using assms(1)
proof (induction p arbitrary: bol)
  case Nil
  then show ?case by (simp add: assms(2))
next
  case (Cons c p)
  then have "rmatch (One (Lit a) # r) bol False [] ((c # p) @ s) = None" by auto
  moreover have "re_sub (One (Lit a) # r) repl (c = NL) (p @ s) = p @ s"
    using Cons by simp
  ultimately show ?case by (subst re_sub.simps) simp
qed

lemma star_not_NL: "CHR ''*'' \<noteq> NL" "CHR ''_'' \<noteq> NL"
  by (simp_all add: NL_def)

lemma re_sub_step_None:
  "rmatch pat bol False [] (c # s) = None \<Longrightarrow> re_sub pat repl bol (c # s) = c # re_sub pat repl (c = NL) s"
  by (subst re_sub.simps) simp

lemma bold_lone_pair:
  assumes "CHR ''*'' \<notin> set b"
  shows "re_sub bold_pat repl bl (''**'' @ b) = ''**'' @ b"
proof -
  have 1: "rmatch bold_pat bl False [] (''**'' @ b) = None"
    using assms by (simp add: bold_pat_def plusl_dot_absent)
  have 2: "rmatch bold_pat bl' False [] (''*'' @ b) = None" for bl'
    using assms by (simp add: bold_pat_def rmatch_lit_absent)
  have 3: "re_sub bold_pat repl bl' b = b" for bl'
    using assms by (simp add: bold_pat_def re_sub_lit_absent)
  show ?thesis using 1 2 3 by (simp add: re_sub_step_None)
qed

lemma bold_lone_single:
  assumes "CHR ''*'' \<notin> set b"
  shows "re_sub bold_pat repl bl (''*'' @ b) = ''*'' @ b"
proof -
  have 2: "rmatch bold_pat bl' False [] (''*'' @ b) = None" for bl'
    using assms by (simp add: bold_pat_def rmatch_lit_absent)
  have 3: "re_sub bold_pat repl bl' b = b" for bl'
    using assms by (simp add: bold_pat_def re_sub_lit_absent)
  show ?thesis using 2 3 by (simp add: re_sub_step_None)
qed

lemma italic_lone_single:
  assumes "CHR ''*'' \<notin> set b"
  shows "re_sub italic_pat repl bl (''*'' @ b) = ''*'' @ b"
proof -
  have 2: "rmatch italic_pat bl' False [] (''*'' @ b) = None" for bl'
    using assms by (simp add: italic_pat_def plusl_dot_absent)
  have 3: "re_sub italic_pat repl bl' b = b" for bl'
    using assms by (simp add: italic_pat_def re_sub_lit_absent)
  show ?thesis using 2 3 by (simp add: re_sub_step_None)
qed

lemma italic_lone_pair:
  assumes "CHR ''*'' \<notin> set b"
  shows "re_sub italic_pat repl bl (''**'' @ b) = ''**'' @ b"
proof -
  have 1: "rmatch italic_pat bl False [] (''**'' @ b) = None"
    using assms by (simp add: italic_pat_def plusl_dot_absent rmatch_lit_absent star_not_NL)
  have "re_sub italic_pat repl bl' (''*'' @ b) = ''*'' @ b" for bl'
    using assms by (rule italic_lone_single)
  then show ?thesis using 1 by (simp add: re_sub_step_None)
qed

lemma underline_lone_pair:
  assumes "CHR ''_'' \<notin> set b"
  shows "re_sub underline_pat repl bl (''__'' @ b) = ''__'' @ b"
proof -
  have 1: "rmatch underline_pat bl False [] (''__'' @ b) = None"
    using assms by (simp add: underline_pat_def plusl_dot_absent)
  have 2: "rmatch underline_pat bl' False [] (''_'' @ b) = None" for bl'
    using assms by (simp add: underline_pat_def rmatch_lit_absent)
  have 3: "re_sub underline_pat repl bl' b = b" for bl'
    using assms by (simp add: underline_pat_def re_sub_lit_absent)
  show ?thesis using 1 2 3 by (simp add: re_sub_step_None)
qed

lemma convert_formatting_lone:
  assumes "CHR ''*'' \<notin> set (a @ b)" "CHR ''_'' \<notin> set (a @ b)"
    and "m = ''**'' \<or> m = ''*'' \<or> m = ''__''"
  shows "convert_formatting (a @ m @ b) = a @ m @ b"
proof -
  have sa: "CHR ''*'' \<notin> set a" "CHR ''*'' \<notin> set b" "CHR ''_'' \<notin> set a" "CHR ''_'' \<notin> set b"
    using assms by auto
  have bp: "bold_pat = One (Lit CHR ''*'') # tl bold_pat"
    and ip: "italic_pat = One (Lit CHR ''*'') # tl italic_pat"
    and up: "underline_pat = One (Lit CHR ''_'') # tl underline_pat"
    by (simp_all add: bold_pat_def italic_pat_def underline_pat_def)
  consider "m = ''**''" | "m = ''*''" | "m = ''__''" using assms(3) by blast
  then show ?thesis
  proof cases
    case 1
    have "re_sub bold_pat (tagged ''strong'') True (a @ m @ b) = a @ m @ b"
      unfolding 1 by (subst bp, rule re_sub_skip_prefix[OF sa(1)], fold bp, rule bold_lone_pair[OF sa(2)])
    moreover have "re_sub italic_pat (tagged ''em'') True (a @ m @ b) = a @ m @ b"
      unfolding 1 by (subst ip, rule re_sub_skip_prefix[OF sa(1)], fold ip, rule italic_lone_pair[OF sa(2)])
    moreover have "re_sub underline_pat (tagged ''u'') True (a @ m @ b) = a @ m @ b"
      unfolding 1 using sa by (subst up, intro re_sub_lit_absent) simp
    ultimately show ?thesis by (simp add: convert_formatting_def)
  next
    case 2
    have "re_sub bold_pat (tagged ''strong'') True (a @ m @ b) = a @ m @ b"
      unfolding 2 by (subst bp, rule re_sub_skip_prefix[OF sa(1)], fold bp, rule bold_lone_single[OF sa(2)])
    moreover have "re_sub italic_pat (tagged ''em'') True (a @ m @ b) = a @ m @ b"
      unfolding 2 by (subst ip, rule re_sub_skip_prefix[OF sa(1)], fold ip, rule italic_lone_single[OF sa(2)])
    moreover have "re_sub underline_pat (tagged ''u'') True (a @ m @ b) = a @ m @ b"
      unfolding 2 using sa by (subst up, intro re_sub_lit_absent) simp
    ultimately show ?thesis by (simp add: convert_formatting_def)
  next
    case 3
    have "re_sub bold_pat (tagged ''strong'') True (a @ m @ b) = a @ m @ b"
      unfolding 3 using sa by (subst bp, intro re_sub_lit_absent) simp
    moreover have "re_sub italic_pat (tagged ''em'') True (a @ m @ b) = a @ m @ b"
      unfolding 3 using sa by (subst ip, intro re_sub_lit_absent) simp
    moreover have "re_sub underline_pat (tagged ''u'') True (a @ m @ b) = a @ m @ b"
      unfolding 3 by (subst up, rule re_sub_skip_prefix[OF sa(3)], fold up, rule underline_lone_pair[OF sa(4)])
    ultimately show ?thesis by (simp add: convert_formatting_def)
  qed
qed

text \<open>
  C4 (as stated): an unbalanced marker is left in the output as literal text. In
  \<^verbatim>\<open>**a*\<close> the marker \<^verbatim>\<open>**\<close> has no partner and the bold rule leaves the text alone, but
  the italic rule then pairs its first \<^verbatim>\<open>*\<close> with the last one: one star of the marker
  is consumed.
\<close>

theorem C4_unbalanced_marker_counterexample:
  "re_sub bold_pat (tagged ''strong'') True ''**a*'' = ''**a*''
   \<and> markdown_to_html ''**a*'' = ''<p><em>*a</em></p>''"
  by code_simp

text \<open>
  C4 (amended): the conversion returns a result for every input (every function of the
  model is total: the recursions are well-founded, and no operation of the source can
  raise on a string). A marker \<^verbatim>\<open>**\<close>, \<^verbatim>\<open>*\<close> or \<^verbatim>\<open>__\<close> in a text that has no other
  \<^verbatim>\<open>*\<close>, \<^verbatim>\<open>_\<close> or \<^verbatim>\<open>#\<close> cannot be paired: the substitutions leave the text as it is,
  marker included, and only the paragraph step acts on it.
\<close>

theorem C4_lone_marker_literal:
  assumes "\<forall>c \<in> set (a @ b). c \<noteq> CHR ''#'' \<and> c \<noteq> CHR ''*'' \<and> c \<noteq> CHR ''_''"
    and "m = ''**'' \<or> m = ''*'' \<or> m = ''__''"
  shows "convert_formatting (convert_headings (a @ m @ b)) = a @ m @ b
         \<and> markdown_to_html (a @ m @ b) = convert_paragraphs (a @ m @ b)"
proof -
  have "CHR ''#'' \<notin> set m" using assms(2) by auto
  moreover have "CHR ''#'' \<notin> set a" "CHR ''#'' \<notin> set b" using assms(1) by auto
  ultimately have "CHR ''#'' \<notin> set (a @ m @ b)" by simp
  then have h: "convert_headings (a @ m @ b) = a @ m @ b" by (rule convert_headings_no_hash)
  have "CHR ''*'' \<notin> set (a @ b)" "CHR ''_'' \<notin> set (a @ b)" using assms(1) by blast+
  then have f: "convert_formatting (a @ m @ b) = a @ m @ b"
    using assms(2) by (rule convert_formatting_lone)
  have "markdown_to_html (a @ m @ b) = convert_paragraphs (a @ m @ b)"
    unfolding markdown_to_html_def h f by (rule refl)
  then show ?thesis unfolding h f by simp
qed

theorem C4_lone_marker_witness:
  "set (''x '' @ '' y'') \<inter> {CHR ''#'', CHR ''*'', CHR ''_''} = {}
   \<and> markdown_to_html ''x ** y'' = ''<p>x ** y</p>''"
proof -
  have h: "\<forall>c \<in> set (''x '' @ '' y''). c \<noteq> CHR ''#'' \<and> c \<noteq> CHR ''*'' \<and> c \<noteq> CHR ''_''" by simp
  have p: "convert_paragraphs ''x ** y'' = ''<p>x ** y</p>''" by code_simp
  have "markdown_to_html (''x '' @ ''**'' @ '' y'') = convert_paragraphs (''x '' @ ''**'' @ '' y'')"
    using C4_lone_marker_literal [OF h, of "''**''"] by blast
  then have "markdown_to_html ''x ** y'' = ''<p>x ** y</p>''" using p by simp
  moreover have "set (''x '' @ '' y'') \<inter> {CHR ''#'', CHR ''*'', CHR ''_''} = {}" by simp
  ultimately show ?thesis by blast
qed

section \<open>Loading and saving the chapters\<close>

lemma extract_chapters_props:
  "distinct (map item chs) \<Longrightarrow> (\<forall>ch \<in> set chs. item ch < pos) \<Longrightarrow>
   distinct (map item (extract_chapters parse items pos chs))
   \<and> (\<forall>ch \<in> set (extract_chapters parse items pos chs). item ch < pos + length items)"
proof (induction items arbitrary: pos chs)
  case Nil
  then show ?case by simp
next
  case (Cons it items)
  show ?case
  proof (cases "get_type it = ITEM_DOCUMENT")
    case True
    let ?chs = "chs @ [\<lparr>item = pos, title = chapter_title (parse (get_content it)) (length chs),
                         content = concat (map get_text (parse (get_content it)))\<rparr>]"
    have "distinct (map item ?chs)" using Cons.prems by auto
    moreover have "\<forall>ch \<in> set ?chs. item ch < pos + 1" using Cons.prems by auto
    ultimately show ?thesis using Cons.IH [of ?chs "pos + 1"] True by simp
  next
    case False
    have "\<forall>ch \<in> set chs. item ch < pos + 1" using Cons.prems by auto
    then show ?thesis using Cons.IH [of chs "pos + 1"] Cons.prems(1) False by simp
  qed
qed

lemma loaded_wf: "wf_chapters book (extract_chapters parse book 0 [])"
  using extract_chapters_props [of "[]" 0 parse book] by (simp add: wf_chapters_def)

lemma extract_chapters_titles:
  "length (extract_chapters parse items pos chs) = length chs + length (documents items)
   \<and> (\<forall>k < length chs. extract_chapters parse items pos chs ! k = chs ! k)
   \<and> (\<forall>k < length (documents items).
        title (extract_chapters parse items pos chs ! (length chs + k))
          = chapter_title (parse (get_content (documents items ! k))) (length chs + k))"
proof (induction items arbitrary: pos chs)
  case Nil
  then show ?case by (simp add: documents_def)
next
  case (Cons it items)
  show ?case
  proof (cases "get_type it = ITEM_DOCUMENT")
    case True
    let ?c = "\<lparr>item = pos, title = chapter_title (parse (get_content it)) (length chs),
                content = concat (map get_text (parse (get_content it)))\<rparr>"
    have d: "documents (it # items) = it # documents items" using True by (simp add: documents_def)
    have e: "extract_chapters parse (it # items) pos chs = extract_chapters parse items (pos + 1) (chs @ [?c])"
      using True by simp
    note IH = Cons.IH [of "pos + 1" "chs @ [?c]"]
    have 1: "length (extract_chapters parse (it # items) pos chs) = length chs + length (documents (it # items))"
      using IH True by (simp add: d)
    have 2: "\<forall>k < length chs. extract_chapters parse (it # items) pos chs ! k = chs ! k"
      using IH True by (simp add: nth_append)
    have 3: "title (extract_chapters parse (it # items) pos chs ! (length chs + k))
          = chapter_title (parse (get_content (documents (it # items) ! k))) (length chs + k)"
      if "k < length (documents (it # items))" for k
    proof (cases k)
      case 0
      have "extract_chapters parse items (pos + 1) (chs @ [?c]) ! length chs = (chs @ [?c]) ! length chs"
        using IH by simp
      then show ?thesis using 0 True by (simp add: d)
    next
      case (Suc k')
      then have "k' < length (documents items)" using that d by simp
      then have "title (extract_chapters parse items (pos + 1) (chs @ [?c]) ! (length (chs @ [?c]) + k'))
          = chapter_title (parse (get_content (documents items ! k'))) (length (chs @ [?c]) + k')"
        using IH by blast
      then show ?thesis using Suc True by (simp add: d)
    qed
    show ?thesis using 1 2 3 by blast
  next
    case False
    have d: "documents (it # items) = documents items" using False by (simp add: documents_def)
    show ?thesis using Cons.IH [of "pos + 1" chs] False by (simp add: d)
  qed
qed

lemma range_from_2:
  "length (range_from i n 2) = (n + 1 - i) div 2
   \<and> (\<forall>k < length (range_from i n 2). range_from i n 2 ! k = i + 2 * k)"
proof (induction i n "2::nat" rule: range_from.induct)
  case (1 i stop)
  show ?case
  proof (cases "i < stop")
    case True
    then have e: "range_from i stop 2 = i # range_from (i + 2) stop 2"
      by (subst range_from.simps) simp
    have IH: "length (range_from (i + 2) stop 2) = (stop + 1 - (i + 2)) div 2
      \<and> (\<forall>k < length (range_from (i + 2) stop 2). range_from (i + 2) stop 2 ! k = i + 2 + 2 * k)"
      using 1 True by simp
    have l: "length (range_from i stop 2) = (stop + 1 - i) div 2"
      using IH True by (simp add: e)
    have "range_from i stop 2 ! k = i + 2 * k" if "k < length (range_from i stop 2)" for k
      using that IH by (cases k) (auto simp: e)
    then show ?thesis using l by blast
  next
    case False
    then have "range_from i stop 2 = []" by (subst range_from.simps) simp
    then show ?thesis using False by simp
  qed
qed

lemma length_set_content [simp]: "length (set_content book i c) = length book"
  by (simp add: set_content_def)

lemma nth_set_content_other: "i \<noteq> j \<Longrightarrow> set_content book i c ! j = book ! j"
  by (simp add: set_content_def)

lemma nth_set_content_same:
  "i < length book \<Longrightarrow> set_content book i c ! i = (book ! i)\<lparr>get_content := c\<rparr>"
  by (simp add: set_content_def)

lemma length_save_loop [simp]: "length (save_loop chs secs is ci book) = length book"
  by (induction "is" arbitrary: ci book) auto

lemma save_loop_other:
  "(\<forall>k < length is. ci + k < length chs \<longrightarrow> item (chs ! (ci + k)) \<noteq> j)
   \<Longrightarrow> save_loop chs secs is ci book ! j = book ! j"
proof (induction "is" arbitrary: ci book)
  case Nil
  then show ?case by simp
next
  case (Cons i "is")
  show ?case
  proof (cases "ci < length chs")
    case True
    have "item (chs ! ci) \<noteq> j" using Cons.prems True by force
    moreover have "\<forall>k < length is. (ci + 1) + k < length chs \<longrightarrow> item (chs ! ((ci + 1) + k)) \<noteq> j"
      using Cons.prems by (metis add.assoc add.commute length_Cons not_less_eq plus_1_eq_Suc)
    ultimately show ?thesis using True Cons.IH [of "ci + 1"] by (simp add: nth_set_content_other)
  next
    case False
    then show ?thesis using Cons.IH [of ci] by simp
  qed
qed

lemma save_loop_hit:
  "wf_chapters book chs \<Longrightarrow> k < length is \<Longrightarrow> ci + k < length chs \<Longrightarrow>
   save_loop chs secs is ci book ! item (chs ! (ci + k))
     = (book ! item (chs ! (ci + k)))\<lparr>get_content := section_doc chs secs (ci + k) (is ! k)\<rparr>"
proof (induction "is" arbitrary: ci book k)
  case Nil
  then show ?case by simp
next
  case (Cons i "is")
  let ?b = "set_content book (item (chs ! ci)) (section_doc chs secs ci i)"
  have ci: "ci < length chs" using Cons.prems by simp
  have step: "save_loop chs secs (i # is) ci book = save_loop chs secs is (ci + 1) ?b"
    using ci by (simp add: section_doc_def)
  have wf: "wf_chapters ?b chs" using Cons.prems(1) by (simp add: wf_chapters_def)
  show ?case
  proof (cases k)
    case 0
    have "\<forall>k' < length is. (ci + 1) + k' < length chs \<longrightarrow> item (chs ! ((ci + 1) + k')) \<noteq> item (chs ! ci)"
      using Cons.prems(1) ci by (auto simp: wf_chapters_def distinct_conv_nth)
    then have "save_loop chs secs is (ci + 1) ?b ! item (chs ! ci) = ?b ! item (chs ! ci)"
      by (rule save_loop_other)
    moreover have "item (chs ! ci) < length book"
      using Cons.prems(1) ci by (simp add: wf_chapters_def)
    ultimately show ?thesis using 0 step by (simp add: nth_set_content_same)
  next
    case (Suc k')
    have "save_loop chs secs is (ci + 1) ?b ! item (chs ! ((ci + 1) + k'))
       = (?b ! item (chs ! ((ci + 1) + k')))\<lparr>get_content := section_doc chs secs ((ci + 1) + k') (is ! k')\<rparr>"
      using Cons.prems Suc by (intro Cons.IH wf) auto
    moreover have "item (chs ! ci) \<noteq> item (chs ! ((ci + 1) + k'))"
      using Cons.prems Suc by (auto simp: wf_chapters_def distinct_conv_nth)
    ultimately show ?thesis using Suc step by (simp add: nth_set_content_other)
  qed
qed

lemma length_cons_first: "xs \<noteq> [] \<Longrightarrow> length (cons_first c xs) = length xs"
  by (cases xs) auto

lemma cons_first_not_Nil [simp]: "cons_first c xs \<noteq> []"
  by (cases xs) auto

lemma re_split_odd: "re_split pat bol s \<noteq> [] \<and> odd (length (re_split pat bol s))"
proof (induction "length s" arbitrary: s bol rule: less_induct)
  case less
  show ?case
  proof (cases "rmatch pat bol False [] s")
    case None
    show ?thesis
    proof (cases s)
      case Nil
      then have "re_split pat bol s = [[]]" using None by (subst re_split.simps) simp
      then show ?thesis by simp
    next
      case (Cons c s')
      have IH: "re_split pat (c = NL) s' \<noteq> [] \<and> odd (length (re_split pat (c = NL) s'))"
        using less [of s'] Cons by simp
      have "re_split pat bol s = cons_first c (re_split pat (c = NL) s')"
        using None Cons by (subst re_split.simps) simp
      then show ?thesis using IH by (simp add: length_cons_first)
    qed
  next
    case (Some m)
    obtain g bol' rest where m: "m = (g, bol', rest)" by (cases m) auto
    show ?thesis
    proof (cases "length rest < length s")
      case True
      have IH: "re_split pat bol' rest \<noteq> [] \<and> odd (length (re_split pat bol' rest))"
        using less [of rest] True by simp
      have "re_split pat bol s = [] # g # re_split pat bol' rest"
        using Some m True by (subst re_split.simps) simp
      then show ?thesis using IH by simp
    next
      case False
      show ?thesis
      proof (cases s)
        case Nil
        then have "re_split pat bol s = [[], g, []]"
          using Some m False by (subst re_split.simps) simp
        then show ?thesis by simp
      next
        case (Cons c s')
        have IH: "re_split pat (c = NL) s' \<noteq> [] \<and> odd (length (re_split pat (c = NL) s'))"
          using less [of s'] Cons by simp
        have "re_split pat bol s = [] # g # cons_first c (re_split pat (c = NL) s')"
          using Some m False Cons by (subst re_split.simps) simp
        then show ?thesis using IH by (simp add: length_cons_first)
      qed
    qed
  qed
qed

lemma delimiters_found_iff:
  "k < delimiters_found text \<longleftrightarrow> 2 * k + 2 < length (re_split delim_pat True text)"
proof -
  have "odd (length (re_split delim_pat True text))" using re_split_odd by blast
  then obtain m where "length (re_split delim_pat True text) = 2 * m + 1" by (auto elim: oddE)
  then show ?thesis by (simp add: delimiters_found_def) arith
qed

lemma save_full_book_written:
  assumes wf: "wf_chapters (current_book st) (chapters st)"
    and mode: "view_mode st \<noteq> ''chapter''"
    and k: "k < length (chapters st)" "k < delimiters_found (strip (editor_get st))"
  shows "current_book (save_epub_to_path st) ! item (chapters st ! k)
           = (current_book st ! item (chapters st ! k))
               \<lparr>get_content := full_html_doc 24 (title (chapters st ! k))
                   (markdown_to_html (strip (body_after (strip (editor_get st)) k)))\<rparr>"
proof -
  let ?secs = "re_split delim_pat True (strip (editor_get st))"
  let ?is = "range_from 1 (length ?secs) 2"
  have len: "length ?is = length ?secs div 2" using range_from_2 [of 1 "length ?secs"] by simp
  then have kis: "k < length ?is" using k(2) by (simp add: delimiters_found_def)
  then have nth: "?is ! k = 1 + 2 * k" using range_from_2 [of 1 "length ?secs"] by blast
  have lt: "2 * k + 2 < length ?secs" using k(2) by (simp add: delimiters_found_iff)
  have "save_loop (chapters st) ?secs ?is 0 (current_book st) ! item (chapters st ! (0 + k))
     = (current_book st ! item (chapters st ! (0 + k)))
         \<lparr>get_content := section_doc (chapters st) ?secs (0 + k) (?is ! k)\<rparr>"
    using wf kis k(1) by (intro save_loop_hit) auto
  then have "save_loop (chapters st) ?secs ?is 0 (current_book st) ! item (chapters st ! k)
     = (current_book st ! item (chapters st ! k))
         \<lparr>get_content := full_html_doc 24 (title (chapters st ! k))
             (markdown_to_html (strip (?secs ! (2 * k + 2))))\<rparr>"
    using lt nth by (simp add: section_doc_def)
  moreover have "current_book (save_epub_to_path st)
      = save_loop (chapters st) ?secs ?is 0 (current_book st)"
    using mode by (simp add: save_epub_to_path_def)
  ultimately show ?thesis by (simp add: body_after_def)
qed

lemma save_full_book_untouched:
  assumes wf: "wf_chapters (current_book st) (chapters st)"
    and mode: "view_mode st \<noteq> ''chapter''"
    and j: "\<forall>k < length (chapters st). k < delimiters_found (strip (editor_get st))
              \<longrightarrow> item (chapters st ! k) \<noteq> j"
  shows "current_book (save_epub_to_path st) ! j = current_book st ! j"
proof -
  let ?secs = "re_split delim_pat True (strip (editor_get st))"
  let ?is = "range_from 1 (length ?secs) 2"
  have len: "length ?is = length ?secs div 2" using range_from_2 [of 1 "length ?secs"] by simp
  have "save_loop (chapters st) ?secs ?is 0 (current_book st) ! j = current_book st ! j"
    using j len by (intro save_loop_other) (simp add: delimiters_found_def)
  then show ?thesis using mode by (simp add: save_epub_to_path_def)
qed

lemma example_loaded:
  "chapters (example_editor b) = extract_chapters example_parse (current_book (example_editor b)) 0 []"
  by (simp add: example_editor_def)

lemma example_mode: "view_mode (example_editor b) \<noteq> ''chapter''"
  by (simp add: example_editor_def)

lemma example_chapters:
  "chapters (example_editor b)
     = [\<lparr>item = 0, title = ''A'', content = ''Aa''\<rparr>,
        \<lparr>item = 2, title = ''B'', content = ''Bb''\<rparr>,
        \<lparr>item = 3, title = ''Chapter 3'', content = ''c''\<rparr>]"
  by code_simp

text \<open>A save keeps the chapters on different items of the book.\<close>

lemma save_keeps_wf:
  "wf_chapters (current_book st) (chapters st)
   \<Longrightarrow> wf_chapters (current_book (save_epub_to_path st)) (chapters (save_epub_to_path st))"
  by (simp add: wf_chapters_def save_epub_to_path_def)

section \<open>The claims about the chapter model\<close>

text \<open>
  C8: on load, the chapters are the document-type items in the order of the book, and the
  title of the \<open>k\<close>-th of them (counting from 0) is the trimmed text of its first
  \<^verbatim>\<open><title>\<close> element if it has one, and \<^verbatim>\<open>Chapter k+1\<close> otherwise.
\<close>

theorem C8_chapter_titles:
  "length (extract_chapters parse book 0 []) = length (documents book)
   \<and> (\<forall>k < length (documents book).
        title (extract_chapters parse book 0 [] ! k)
          = (case soup_find ''title'' (parse (get_content (documents book ! k))) of
               Some t \<Rightarrow> strip (get_text t)
             | None \<Rightarrow> ''Chapter '' @ str_nat (k + 1)))"
  using extract_chapters_titles [of parse book 0 "[]"] by (simp add: chapter_title_def)

theorem C8_chapter_3_witness:
  "length (documents example_book) = 3
   \<and> soup_find ''title'' (example_parse (get_content (documents example_book ! 2))) = None
   \<and> title (extract_chapters example_parse example_book 0 [] ! 0) = ''A''
   \<and> title (extract_chapters example_parse example_book 0 [] ! 1) = ''B''
   \<and> title (extract_chapters example_parse example_book 0 [] ! 2) = ''Chapter 3''"
proof -
  have l: "length (documents example_book) = 3" by code_simp
  have n: "soup_find ''title'' (example_parse (get_content (documents example_book ! 2))) = None"
    by code_simp
  have a: "soup_find ''title'' (example_parse (get_content (documents example_book ! 0)))
             = Some (Tag ''title'' [Text ''A''])"
    by code_simp
  have b: "soup_find ''title'' (example_parse (get_content (documents example_book ! Suc 0)))
             = Some (Tag ''title'' [Text ''B''])"
    by code_simp
  have s: "str_nat 3 = ''3''" "strip ''A'' = ''A''" "strip ''B'' = ''B''" by code_simp+
  note c8 = C8_chapter_titles [of example_parse example_book]
  have len: "length (extract_chapters example_parse example_book 0 []) = 3" using c8 l by simp
  have t: "title (extract_chapters example_parse example_book 0 [] ! k)
          = (case soup_find ''title'' (example_parse (get_content (documents example_book ! k))) of
               Some t \<Rightarrow> strip (get_text t)
             | None \<Rightarrow> ''Chapter '' @ str_nat (k + 1))" if "k < 3" for k
    using c8 l that by simp
  have t0: "title (extract_chapters example_parse example_book 0 [] ! 0) = ''A''"
    using t [of 0] by (simp add: a s)
  have t1: "title (extract_chapters example_parse example_book 0 [] ! 1) = ''B''"
    using t [of 1] by (simp add: b s)
  have t2: "title (extract_chapters example_parse example_book 0 [] ! 2) = ''Chapter 3''"
    using t [of 2] by (simp add: n s)
  show ?thesis using l n t0 t1 t2 by blast
qed

text \<open>
  C1: in every state whose chapters refer to different items of the book (every state
  after a load, and after any number of saves), a full-book save writes into the item of
  chapter \<open>k\<close> the document below, whenever the buffer has more than \<open>k\<close> delimiter lines:
  its \<^verbatim>\<open><title>\<close> element holds the chapter's own stored title and its body is the
  conversion of the trimmed text that follows the \<open>(k+1)\<close>-th delimiter line. The title that
  the delimiter captured does not occur in the result: chapters are matched by position
  only.
\<close>

theorem C1_positional_split:
  assumes "wf_chapters (current_book st) (chapters st)"
    and "view_mode st \<noteq> ''chapter''"
    and "k < length (chapters st)" and "k < delimiters_found (strip (editor_get st))"
  shows "current_book (save_epub_to_path st) ! item (chapters st ! k)
           = (current_book st ! item (chapters st ! k))
               \<lparr>get_content :=
                  [NL] @ replicate 24 CHR '' '' @ ''<html>'' @ [NL]
                  @ replicate 24 CHR '' '' @ ''<head>'' @ [NL]
                  @ replicate 28 CHR '' '' @ ''<title>'' @ title (chapters st ! k) @ ''</title>'' @ [NL]
                  @ replicate 24 CHR '' '' @ ''</head>'' @ [NL]
                  @ replicate 24 CHR '' '' @ ''<body>'' @ [NL]
                  @ replicate 28 CHR '' '' @ markdown_to_html (strip (body_after (strip (editor_get st)) k)) @ [NL]
                  @ replicate 24 CHR '' '' @ ''</body>'' @ [NL]
                  @ replicate 24 CHR '' '' @ ''</html>'' @ [NL]
                  @ replicate 24 CHR '' ''\<rparr>"
  using save_full_book_written [OF assms] by (simp add: full_html_doc_def)

theorem C1_renamed_delimiters_witness:
  "wf_chapters (current_book (example_editor renamed_buffer))
     (chapters (example_editor renamed_buffer))
   \<and> view_mode (example_editor renamed_buffer) \<noteq> ''chapter''
   \<and> map title (chapters (example_editor renamed_buffer)) = [''A'', ''B'', ''Chapter 3'']
   \<and> delimiters_found (strip (editor_get (example_editor renamed_buffer))) = 2
   \<and> get_content (current_book (save_epub_to_path (example_editor renamed_buffer)) ! 0)
       = [NL] @ replicate 24 CHR '' '' @ ''<html>'' @ [NL]
          @ replicate 24 CHR '' '' @ ''<head>'' @ [NL]
          @ replicate 28 CHR '' '' @ ''<title>'' @ ''A'' @ ''</title>'' @ [NL]
          @ replicate 24 CHR '' '' @ ''</head>'' @ [NL]
          @ replicate 24 CHR '' '' @ ''<body>'' @ [NL]
          @ replicate 28 CHR '' '' @ ''<p>bodyX</p>'' @ [NL]
          @ replicate 24 CHR '' '' @ ''</body>'' @ [NL]
          @ replicate 24 CHR '' '' @ ''</html>'' @ [NL]
          @ replicate 24 CHR '' ''
   \<and> get_content (current_book (save_epub_to_path (example_editor renamed_buffer)) ! 2)
       = [NL] @ replicate 24 CHR '' '' @ ''<html>'' @ [NL]
          @ replicate 24 CHR '' '' @ ''<head>'' @ [NL]
          @ replicate 28 CHR '' '' @ ''<title>'' @ ''B'' @ ''</title>'' @ [NL]
          @ replicate 24 CHR '' '' @ ''</head>'' @ [NL]
          @ replicate 24 CHR '' '' @ ''<body>'' @ [NL]
          @ replicate 28 CHR '' '' @ ''<p>bodyY</p>'' @ [NL]
          @ replicate 24 CHR '' '' @ ''</body>'' @ [NL]
          @ replicate 24 CHR '' '' @ ''</html>'' @ [NL]
          @ replicate 24 CHR '' ''"
proof -
  let ?st = "example_editor renamed_buffer"
  have wf: "wf_chapters (current_book ?st) (chapters ?st)"
    using loaded_wf [of "current_book ?st" example_parse] example_loaded [of renamed_buffer]
    by simp
  have d: "delimiters_found (strip (editor_get ?st)) = 2" by code_simp
  have b0: "markdown_to_html (strip (body_after (strip (editor_get ?st)) 0)) = ''<p>bodyX</p>''"
    by code_simp
  have b1: "markdown_to_html (strip (body_after (strip (editor_get ?st)) (Suc 0))) = ''<p>bodyY</p>''"
    by code_simp
  have k0: "0 < length (chapters ?st)" "0 < delimiters_found (strip (editor_get ?st))"
    by (simp_all add: d example_chapters)
  have k1: "Suc 0 < length (chapters ?st)" "Suc 0 < delimiters_found (strip (editor_get ?st))"
    by (simp_all add: d example_chapters)
  have 0: "get_content (current_book (save_epub_to_path ?st) ! 0)
       = [NL] @ replicate 24 CHR '' '' @ ''<html>'' @ [NL]
          @ replicate 24 CHR '' '' @ ''<head>'' @ [NL]
          @ replicate 28 CHR '' '' @ ''<title>'' @ ''A'' @ ''</title>'' @ [NL]
          @ replicate 24 CHR '' '' @ ''</head>'' @ [NL]
          @ replicate 24 CHR '' '' @ ''<body>'' @ [NL]
          @ replicate 28 CHR '' '' @ ''<p>bodyX</p>'' @ [NL]
          @ replicate 24 CHR '' '' @ ''</body>'' @ [NL]
          @ replicate 24 CHR '' '' @ ''</html>'' @ [NL]
          @ replicate 24 CHR '' ''"
    using C1_positional_split [OF wf example_mode k0] by (simp add: b0 example_chapters)
  have 1: "get_content (current_book (save_epub_to_path ?st) ! 2)
       = [NL] @ replicate 24 CHR '' '' @ ''<html>'' @ [NL]
          @ replicate 24 CHR '' '' @ ''<head>'' @ [NL]
          @ replicate 28 CHR '' '' @ ''<title>'' @ ''B'' @ ''</title>'' @ [NL]
          @ replicate 24 CHR '' '' @ ''</head>'' @ [NL]
          @ replicate 24 CHR '' '' @ ''<body>'' @ [NL]
          @ replicate 28 CHR '' '' @ ''<p>bodyY</p>'' @ [NL]
          @ replicate 24 CHR '' '' @ ''</body>'' @ [NL]
          @ replicate 24 CHR '' '' @ ''</html>'' @ [NL]
          @ replicate 24 CHR '' ''"
    using C1_positional_split [OF wf example_mode k1] by (simp add: b1 example_chapters)
  show ?thesis using 0 1 d wf example_mode by (simp add: example_chapters)
qed




text \<open>
  C9: in every state whose chapters refer to different items of the book (every state
  after a load, and after any number of saves), a save, in either view mode, returns the
  chapters as they were, titles included; and the item of a chapter is afterwards either
  what it was, or it holds the document below, whose \<^verbatim>\<open><title>\<close> element holds the stored
  title of that chapter. No text of the buffer reaches the title element.
\<close>

theorem C9_title_immutable:
  assumes "wf_chapters (current_book st) (chapters st)"
  shows "chapters (save_epub_to_path st) = chapters st
     \<and> (\<forall>k < length (chapters st).
          current_book (save_epub_to_path st) ! item (chapters st ! k)
            = current_book st ! item (chapters st ! k)
          \<or> (\<exists>ind html. current_book (save_epub_to_path st) ! item (chapters st ! k)
               = (current_book st ! item (chapters st ! k))
                   \<lparr>get_content :=
                      [NL] @ replicate ind CHR '' '' @ ''<html>'' @ [NL]
                      @ replicate ind CHR '' '' @ ''<head>'' @ [NL]
                      @ replicate (ind + 4) CHR '' '' @ ''<title>'' @ title (chapters st ! k) @ ''</title>'' @ [NL]
                      @ replicate ind CHR '' '' @ ''</head>'' @ [NL]
                      @ replicate ind CHR '' '' @ ''<body>'' @ [NL]
                      @ replicate (ind + 4) CHR '' '' @ html @ [NL]
                      @ replicate ind CHR '' '' @ ''</body>'' @ [NL]
                      @ replicate ind CHR '' '' @ ''</html>'' @ [NL]
                      @ replicate ind CHR '' ''\<rparr>))"
proof (intro conjI allI impI)
  note wf = assms
  show "chapters (save_epub_to_path st) = chapters st"
    by (simp add: save_epub_to_path_def)
  fix k assume k: "k < length (chapters st)"
  let ?j = "item (chapters st ! k)"
  let ?new = "current_book (save_epub_to_path st) ! ?j"
  let ?old = "current_book st ! ?j"
  have "?new = ?old \<or> (\<exists>ind html. ?new = ?old\<lparr>get_content := full_html_doc ind (title (chapters st ! k)) html\<rparr>)"
  proof (cases "view_mode st = ''chapter''")
    case False
    show ?thesis
    proof (cases "k < delimiters_found (strip (editor_get st))")
      case True
      then show ?thesis using save_full_book_written [OF wf False k] by blast
    next
      case no: False
      have "?new = ?old"
      proof (rule save_full_book_untouched [OF wf False], intro allI impI)
        fix k' assume k': "k' < length (chapters st)" "k' < delimiters_found (strip (editor_get st))"
        then have "k' \<noteq> k" using no by auto
        then show "item (chapters st ! k') \<noteq> ?j"
          using wf k k'(1) by (auto simp: wf_chapters_def distinct_conv_nth)
      qed
      then show ?thesis by simp
    qed
  next
    case True
    show ?thesis
    proof (cases "chapters st \<noteq> [] \<and> 0 \<le> current_chapter_index st
               \<and> current_chapter_index st < int (length (chapters st))")
      case False
      then have "save_epub_to_path st = st" using True by (auto simp add: save_epub_to_path_def)
      then show ?thesis by simp
    next
      case ok: True
      let ?c = "nat (current_chapter_index st)"
      have c: "?c < length (chapters st)" using ok by auto
      have book: "current_book (save_epub_to_path st)
        = set_content (current_book st) (item (chapters st ! ?c))
            (full_html_doc 20 (title (chapters st ! ?c)) (markdown_to_html (strip (editor_get st))))"
        using True ok by (simp add: save_epub_to_path_def)
      show ?thesis
      proof (cases "k = ?c")
        case same: True
        have "?j < length (current_book st)" using wf k by (simp add: wf_chapters_def)
        then have "?new = ?old\<lparr>get_content := full_html_doc 20 (title (chapters st ! k))
                      (markdown_to_html (strip (editor_get st)))\<rparr>"
          using same by (simp add: book nth_set_content_same)
        then show ?thesis by blast
      next
        case False
        then have "item (chapters st ! ?c) \<noteq> ?j"
          using wf k c by (auto simp: wf_chapters_def distinct_conv_nth)
        then show ?thesis by (simp add: book nth_set_content_other)
      qed
    qed
  qed
  then show "?new = ?old \<or> (\<exists>ind html. ?new = ?old\<lparr>get_content :=
                      [NL] @ replicate ind CHR '' '' @ ''<html>'' @ [NL]
                      @ replicate ind CHR '' '' @ ''<head>'' @ [NL]
                      @ replicate (ind + 4) CHR '' '' @ ''<title>'' @ title (chapters st ! k) @ ''</title>'' @ [NL]
                      @ replicate ind CHR '' '' @ ''</head>'' @ [NL]
                      @ replicate ind CHR '' '' @ ''<body>'' @ [NL]
                      @ replicate (ind + 4) CHR '' '' @ html @ [NL]
                      @ replicate ind CHR '' '' @ ''</body>'' @ [NL]
                      @ replicate ind CHR '' '' @ ''</html>'' @ [NL]
                      @ replicate ind CHR '' ''\<rparr>)"
    unfolding full_html_doc_def by simp
qed

theorem C9_title_witness:
  "wf_chapters (current_book (example_editor renamed_buffer))
     (chapters (example_editor renamed_buffer))
   \<and> renamed_buffer = ''=== X ==='' @ [NL] @ ''bodyX'' @ [NL] @ ''=== Y ==='' @ [NL] @ ''bodyY''
   \<and> map title (chapters (save_epub_to_path (example_editor renamed_buffer)))
       = [''A'', ''B'', ''Chapter 3'']
   \<and> current_book (save_epub_to_path (example_editor renamed_buffer)) ! 0
       \<noteq> current_book (example_editor renamed_buffer) ! 0
   \<and> get_content (current_book (save_epub_to_path (example_editor renamed_buffer)) ! 0)
       = [NL] @ replicate 24 CHR '' '' @ ''<html>'' @ [NL]
          @ replicate 24 CHR '' '' @ ''<head>'' @ [NL]
          @ replicate 28 CHR '' '' @ ''<title>'' @ ''A'' @ ''</title>'' @ [NL]
          @ replicate 24 CHR '' '' @ ''</head>'' @ [NL]
          @ replicate 24 CHR '' '' @ ''<body>'' @ [NL]
          @ replicate 28 CHR '' '' @ ''<p>bodyX</p>'' @ [NL]
          @ replicate 24 CHR '' '' @ ''</body>'' @ [NL]
          @ replicate 24 CHR '' '' @ ''</html>'' @ [NL]
          @ replicate 24 CHR '' ''"
proof -
  let ?st = "example_editor renamed_buffer"
  have wf: "wf_chapters (current_book ?st) (chapters ?st)"
    using loaded_wf [of "current_book ?st" example_parse] example_loaded [of renamed_buffer]
    by simp
  note c9 = C9_title_immutable [OF wf]
  have "chapters (save_epub_to_path ?st) = chapters ?st" using c9 by blast
  then have t: "map title (chapters (save_epub_to_path ?st)) = [''A'', ''B'', ''Chapter 3'']"
    by (simp add: example_chapters)
  have g: "get_content (current_book (save_epub_to_path ?st) ! 0)
       = [NL] @ replicate 24 CHR '' '' @ ''<html>'' @ [NL]
          @ replicate 24 CHR '' '' @ ''<head>'' @ [NL]
          @ replicate 28 CHR '' '' @ ''<title>'' @ ''A'' @ ''</title>'' @ [NL]
          @ replicate 24 CHR '' '' @ ''</head>'' @ [NL]
          @ replicate 24 CHR '' '' @ ''<body>'' @ [NL]
          @ replicate 28 CHR '' '' @ ''<p>bodyX</p>'' @ [NL]
          @ replicate 24 CHR '' '' @ ''</body>'' @ [NL]
          @ replicate 24 CHR '' '' @ ''</html>'' @ [NL]
          @ replicate 24 CHR '' ''"
    by code_simp
  have n: "current_book (save_epub_to_path ?st) ! 0 \<noteq> current_book ?st ! 0"
    by code_simp
  show ?thesis using t g n wf by (simp add: renamed_buffer_def)
qed

section \<open>Joining the chapters and splitting the buffer\<close>

lemma ex_cons:
  "\<exists>u. s = u @ r \<and> NL \<notin> set u \<Longrightarrow> c \<noteq> NL \<Longrightarrow> \<exists>u. c # s = u @ r \<and> NL \<notin> set u"
  by (metis append_Cons set_ConsD)

lemma rmatch_suffix:
  "list_all line_item pat \<Longrightarrow> rmatch pat b opn g s = Some (g', b', r)
   \<Longrightarrow> \<exists>u. s = u @ r \<and> NL \<notin> set u"
proof (induction pat b opn g s arbitrary: g' b' r rule: rmatch.induct)
  case (1 bol opn g s)
  then show ?case by simp
next
  case (2 r bol opn g s)
  then show ?case by (simp split: if_splits)
next
  case (3 r bol opn g s)
  then show ?case by (simp split: if_splits)
next
  case (4 r bol opn g s)
  then show ?case by simp
next
  case (5 r bol opn g s)
  then show ?case by simp
next
  case (6 a r bol opn g)
  then show ?case by simp
next
  case (7 a r0 bol opn g c s)
  from "7.prems" have ok: "atom_ok a c" by (simp split: if_splits)
  with "7.prems" have c: "c \<noteq> NL" by auto
  from "7.prems" ok have "rmatch r0 (c = NL) opn (if opn then g @ [c] else g) s = Some (g', b', r)"
    by simp
  then have "\<exists>u. s = u @ r \<and> NL \<notin> set u" using "7.IH" ok "7.prems"(1) by simp
  then show ?case using c by (rule ex_cons)
next
  case (8 a r bol opn g)
  then show ?case by simp
next
  case (9 a r0 bol opn g c s)
  from "9.prems" have ok: "atom_ok a c" by (simp split: if_splits)
  with "9.prems" have c: "c \<noteq> NL" by auto
  let ?g = "if opn then g @ [c] else g"
  have "\<exists>u. s = u @ r \<and> NL \<notin> set u"
  proof (cases "rmatch (PlusG a # r0) (c = NL) opn ?g s")
    case None
    with "9.prems" ok have "rmatch r0 (c = NL) opn ?g s = Some (g', b', r)" by simp
    then show ?thesis using "9.IH"(2) [OF ok None] "9.prems"(1) by simp
  next
    case (Some m)
    with "9.prems" ok have "rmatch (PlusG a # r0) (c = NL) opn ?g s = Some (g', b', r)" by simp
    then show ?thesis using "9.IH"(1) [OF ok] "9.prems"(1) by simp
  qed
  then show ?case using c by (rule ex_cons)
next
  case (10 a r bol opn g)
  then show ?case by simp
next
  case (11 a r0 bol opn g c s)
  from "11.prems" have ok: "atom_ok a c" by (simp split: if_splits)
  with "11.prems" have c: "c \<noteq> NL" by auto
  let ?g = "if opn then g @ [c] else g"
  have "\<exists>u. s = u @ r \<and> NL \<notin> set u"
  proof (cases "rmatch r0 (c = NL) opn ?g s")
    case None
    with "11.prems" ok have "rmatch (PlusL a # r0) (c = NL) opn ?g s = Some (g', b', r)" by simp
    then show ?thesis using "11.IH"(2) [OF ok None] "11.prems"(1) by simp
  next
    case (Some m)
    with "11.prems" ok have "rmatch r0 (c = NL) opn ?g s = Some (g', b', r)" by simp
    then show ?thesis using "11.IH"(1) [OF ok] "11.prems"(1) by simp
  qed
  then show ?case using c by (rule ex_cons)
qed

lemma rmatch_local:
  "list_all line_item pat \<Longrightarrow> NL \<in> set s \<Longrightarrow>
   rmatch pat b opn g (s @ v) = map_option (\<lambda>(g', b', r). (g', b', r @ v)) (rmatch pat b opn g s)"
proof (induction pat b opn g s rule: rmatch.induct)
  case (1 bol opn g s)
  then show ?case by simp
next
  case (2 r bol opn g s)
  then show ?case by simp
next
  case (3 r bol opn g s)
  then have "at_eol (s @ v) = at_eol s" by (cases s) auto
  then show ?case using 3 by simp
next
  case (4 r bol opn g s)
  then show ?case by simp
next
  case (5 r bol opn g s)
  then show ?case by simp
next
  case (6 a r bol opn g)
  then show ?case by simp
next
  case (7 a r0 bol opn g c s)
  show ?case
  proof (cases "atom_ok a c")
    case True
    then have "c \<noteq> NL" using "7.prems" by auto
    then have "NL \<in> set s" using "7.prems" by auto
    then show ?thesis using "7.IH" [OF True] "7.prems"(1) True by simp
  next
    case False
    then show ?thesis by simp
  qed
next
  case (8 a r bol opn g)
  then show ?case by simp
next
  case (9 a r0 bol opn g c s)
  let ?g = "if opn then g @ [c] else g"
  show ?case
  proof (cases "atom_ok a c")
    case True
    then have "c \<noteq> NL" using "9.prems" by auto
    then have nl: "NL \<in> set s" using "9.prems" by auto
    have 1: "rmatch (PlusG a # r0) (c = NL) opn ?g (s @ v)
              = map_option (\<lambda>(g', b', r). (g', b', r @ v)) (rmatch (PlusG a # r0) (c = NL) opn ?g s)"
      using "9.IH"(1) [OF True] "9.prems"(1) nl by simp
    show ?thesis
    proof (cases "rmatch (PlusG a # r0) (c = NL) opn ?g s")
      case None
      have "rmatch r0 (c = NL) opn ?g (s @ v)
              = map_option (\<lambda>(g', b', r). (g', b', r @ v)) (rmatch r0 (c = NL) opn ?g s)"
        using "9.IH"(2) [OF True None] "9.prems"(1) nl by simp
      then show ?thesis using 1 None True by simp
    next
      case (Some m)
      then show ?thesis using 1 True by simp
    qed
  next
    case False
    then show ?thesis by simp
  qed
next
  case (10 a r bol opn g)
  then show ?case by simp
next
  case (11 a r0 bol opn g c s)
  let ?g = "if opn then g @ [c] else g"
  show ?case
  proof (cases "atom_ok a c")
    case True
    then have "c \<noteq> NL" using "11.prems" by auto
    then have nl: "NL \<in> set s" using "11.prems" by auto
    have 1: "rmatch r0 (c = NL) opn ?g (s @ v)
              = map_option (\<lambda>(g', b', r). (g', b', r @ v)) (rmatch r0 (c = NL) opn ?g s)"
      using "11.IH"(1) [OF True] "11.prems"(1) nl by simp
    show ?thesis
    proof (cases "rmatch r0 (c = NL) opn ?g s")
      case None
      have "rmatch (PlusL a # r0) (c = NL) opn ?g (s @ v)
              = map_option (\<lambda>(g', b', r). (g', b', r @ v)) (rmatch (PlusL a # r0) (c = NL) opn ?g s)"
        using "11.IH"(2) [OF True None] "11.prems"(1) nl by simp
      then show ?thesis using 1 None True by simp
    next
      case (Some m)
      then show ?thesis using 1 True by simp
    qed
  next
    case False
    then show ?thesis by simp
  qed
qed

lemma delim_line: "list_all line_item delim_pat"
  by (simp add: delim_pat_def NL_def)

lemma delim_consumes:
  assumes "rmatch delim_pat b False [] s = Some (g, b', r)"
  shows "length r < length s"
proof -
  obtain c s' where s: "s = c # s'" using assms by (cases s) (auto simp: delim_pat_def split: if_splits)
  have "\<exists>u. s = u @ r \<and> NL \<notin> set u" using rmatch_suffix [OF delim_line assms] .
  then obtain u where u: "s = u @ r" by blast
  have "u \<noteq> []"
  proof
    assume "u = []"
    then have "r = s" using u by simp
    then have "rmatch delim_pat b False [] s = Some (g, b', s)" using assms by simp
    then obtain g1 b1 where "rmatch (tl (tl delim_pat)) b1 False g1 s' = Some (g, b', c # s')"
      using s by (auto simp: delim_pat_def split: if_splits)
    then have "\<exists>u. s' = u @ (c # s') \<and> NL \<notin> set u"
      by (rule rmatch_suffix [rotated]) (simp add: delim_pat_def NL_def)
    then show False by (metis append_eq_append_conv2 length_append length_Cons Suc_n_not_le_n le_add2 add.commute)
  qed
  then show ?thesis using u by (cases u) auto
qed

lemma glue_cons_first: "xs \<noteq> [] \<Longrightarrow> glue (cons_first c xs) ys = cons_first c (glue xs ys)"
  by (cases xs; cases "tl xs") (auto simp: glue_def)

lemma glue_match: "xs \<noteq> [] \<Longrightarrow> glue (a # g # xs) ys = a # g # glue xs ys"
  by (simp add: glue_def)

lemma glue_single: "ys \<noteq> [] \<Longrightarrow> glue [x] ys = (x @ hd ys) # tl ys"
  by (simp add: glue_def)

lemma glue_empty: "xs \<noteq> [] \<Longrightarrow> glue xs [[]] = xs"
  by (simp add: glue_def)

lemma length_glue: "xs \<noteq> [] \<Longrightarrow> ys \<noteq> [] \<Longrightarrow> length (glue xs ys) + 1 = length xs + length ys"
  by (simp add: glue_def)

lemma re_split_Nil:
  assumes "\<And>b s g b' r. rmatch pat b False [] s = Some (g, b', r) \<Longrightarrow> length r < length s"
  shows "re_split pat b [] = [[]]"
proof (cases "rmatch pat b False [] []")
  case None
  then show ?thesis by (subst re_split.simps) simp
next
  case (Some m)
  then show ?thesis using assms [of b "[]" "fst m" "fst (snd m)" "snd (snd m)"] by simp
qed

lemma re_split_append:
  assumes lp: "list_all line_item pat"
    and cons: "\<And>b s g b' r. rmatch pat b False [] s = Some (g, b', r) \<Longrightarrow> length r < length s"
  shows "P \<noteq> [] \<Longrightarrow> last P = NL \<Longrightarrow>
         re_split pat b (P @ w) = glue (re_split pat b P) (re_split pat True w)"
proof (induction "length P" arbitrary: P b rule: less_induct)
  case less
  have nl: "NL \<in> set P" using less.prems by (metis last_in_set)
  note loc = rmatch_local [OF lp nl, of b False "[]" w]
  have ne: "\<And>b s. re_split pat b s \<noteq> []" using re_split_odd by blast
  show ?case
  proof (cases "rmatch pat b False [] P")
    case None
    then have n2: "rmatch pat b False [] (P @ w) = None" using loc by simp
    obtain c P' where P: "P = c # P'" using less.prems(1) by (cases P) auto
    have 1: "re_split pat b (P @ w) = cons_first c (re_split pat (c = NL) (P' @ w))"
      using n2 P by (subst re_split.simps) simp
    have 2: "re_split pat b P = cons_first c (re_split pat (c = NL) P')"
      using None P by (subst re_split.simps) simp
    show ?thesis
    proof (cases "P' = []")
      case True
      then have c: "c = NL" using P less.prems by simp
      have "re_split pat b P = [[NL]]" using 2 True c re_split_Nil [OF cons] by simp
      moreover have "re_split pat b (P @ w) = cons_first NL (re_split pat True w)"
        using 1 True c by simp
      moreover have "glue [[NL]] (re_split pat True w) = cons_first NL (re_split pat True w)"
        using ne [of True w] by (cases "re_split pat True w") (auto simp: glue_def)
      ultimately show ?thesis by simp
    next
      case False
      then have l: "last P' = NL" using P less.prems by simp
      have "re_split pat (c = NL) (P' @ w) = glue (re_split pat (c = NL) P') (re_split pat True w)"
        using less.hyps [of P' "c = NL"] False l P by simp
      then show ?thesis using 1 2 glue_cons_first [OF ne] by simp
    qed
  next
    case (Some m)
    obtain g b' r where m: "m = (g, b', r)" by (cases m)
    have s1: "rmatch pat b False [] P = Some (g, b', r)" using Some m by simp
    have s2: "rmatch pat b False [] (P @ w) = Some (g, b', r @ w)" using loc s1 by simp
    have lr: "length r < length P" using cons [OF s1] .
    obtain u where u: "P = u @ r" "NL \<notin> set u" using rmatch_suffix [OF lp s1] by blast
    have rne: "r \<noteq> []" using u nl by auto
    then have l: "last r = NL" using u less.prems by simp
    have 1: "re_split pat b (P @ w) = [] # g # re_split pat b' (r @ w)"
      using s2 lr by (subst re_split.simps) simp
    have 2: "re_split pat b P = [] # g # re_split pat b' r"
      using s1 lr by (subst re_split.simps) simp
    have "re_split pat b' (r @ w) = glue (re_split pat b' r) (re_split pat True w)"
      using less.hyps [of r b'] lr rne l by simp
    then show ?thesis using 1 2 glue_match [OF ne] by simp
  qed
qed

lemma re_split_single:
  "length (re_split pat b s) = 1 \<Longrightarrow> re_split pat b s = [s]"
proof (induction s arbitrary: b)
  case Nil
  then show ?case by (subst re_split.simps, subst (asm) re_split.simps) (auto split: option.splits if_splits)
next
  case (Cons c s)
  have ne: "re_split pat (c = NL) s \<noteq> []" using re_split_odd by blast
  show ?case
  proof (cases "rmatch pat b False [] (c # s)")
    case None
    then have 1: "re_split pat b (c # s) = cons_first c (re_split pat (c = NL) s)"
      by (subst re_split.simps) simp
    then have "length (re_split pat (c = NL) s) = 1" using Cons.prems length_cons_first [OF ne] by simp
    then have "re_split pat (c = NL) s = [s]" by (rule Cons.IH)
    then show ?thesis using 1 by simp
  next
    case (Some m)
    then have "length (re_split pat b (c # s)) \<ge> 2"
      by (subst re_split.simps) (auto split: prod.splits)
    then show ?thesis using Cons.prems by simp
  qed
qed

lemma delim_tail_fail:
  assumes "T \<noteq> []" and "NL \<notin> set T"
  shows "rmatch [One (Lit CHR '' ''), One (Lit CHR ''=''), One (Lit CHR ''=''), One (Lit CHR ''=''), Eol]
           b False g (T @ '' ==='' @ r) = None"
proof -
  obtain c1 T1 where 1: "T = c1 # T1" using assms by (cases T) auto
  show ?thesis
  proof (cases T1)
    case Nil
    then show ?thesis using 1 by simp
  next
    case (Cons c2 T2)
    note 2 = Cons
    show ?thesis
    proof (cases T2)
      case Nil
      then show ?thesis using 1 2 by simp
    next
      case (Cons c3 T3)
      note 3 = Cons
      show ?thesis
      proof (cases T3)
        case Nil
        then show ?thesis using 1 2 3 by simp
      next
        case (Cons c4 T4)
        show ?thesis
        proof (cases T4)
          case Nil
          then show ?thesis using 1 2 3 Cons by (simp add: NL_def)
        next
          case (Cons c5 T5)
          then have "c5 \<noteq> NL" using assms 1 2 3 \<open>T3 = c4 # T4\<close> by auto
          then show ?thesis using 1 2 3 \<open>T3 = c4 # T4\<close> Cons by simp
        qed
      qed
    qed
  qed
qed

lemma delim_lazy:
  "T \<noteq> [] \<Longrightarrow> NL \<notin> set T \<Longrightarrow> at_eol r \<Longrightarrow>
   rmatch [PlusL Dot, GClose, One (Lit CHR '' ''), One (Lit CHR ''=''), One (Lit CHR ''=''),
           One (Lit CHR ''=''), Eol] b True g (T @ '' ==='' @ r) = Some (g @ T, False, r)"
proof (induction T arbitrary: b g)
  case Nil
  then show ?case by simp
next
  case (Cons c T)
  then have c: "c \<noteq> NL" by auto
  show ?case
  proof (cases "T = []")
    case True
    then show ?thesis using c Cons.prems(3) by (simp add: NL_def)
  next
    case False
    have "rmatch [One (Lit CHR '' ''), One (Lit CHR ''=''), One (Lit CHR ''=''), One (Lit CHR ''=''), Eol]
            (c = NL) False (g @ [c]) (T @ '' ==='' @ r) = None"
      using False Cons.prems by (intro delim_tail_fail) auto
    moreover have "rmatch [PlusL Dot, GClose, One (Lit CHR '' ''), One (Lit CHR ''=''),
            One (Lit CHR ''=''), One (Lit CHR ''=''), Eol] (c = NL) True (g @ [c]) (T @ '' ==='' @ r)
            = Some ((g @ [c]) @ T, False, r)"
      using False Cons.prems by (intro Cons.IH) auto
    ultimately show ?thesis using c by simp
  qed
qed

lemma delim_match:
  assumes "T \<noteq> []" and "NL \<notin> set T" and "at_eol r"
  shows "rmatch delim_pat True False [] (delimiter_line T @ r) = Some (T, False, r)"
  using delim_lazy [OF assms, of _ "[]"] by (simp add: delim_pat_def delimiter_line_def)

lemma re_split_delimiter_line:
  assumes "T \<noteq> []" and "NL \<notin> set T" and "at_eol r"
  shows "re_split delim_pat True (delimiter_line T @ r) = [] # T # re_split delim_pat False r"
  using delim_match [OF assms] by (subst re_split.simps) (simp add: delimiter_line_def)

lemma strip_ends:
  assumes "strip m \<noteq> []"
  shows "\<not> isspace (hd (strip m))" and "\<not> isspace (last (strip m))"
proof -
  let ?L = "dropWhile isspace m"
  let ?R = "dropWhile isspace (rev ?L)"
  have s: "strip m = rev ?R" by (simp add: strip_def lstrip_def rstrip_def)
  then have R: "?R \<noteq> []" using assms by simp
  then have "\<not> isspace (hd ?R)" by (rule hd_dropWhile)
  then show "\<not> isspace (last (strip m))" using s R by (simp add: last_rev)
  have "rev ?L = takeWhile isspace (rev ?L) @ ?R" by simp
  then have "?L = rev ?R @ rev (takeWhile isspace (rev ?L))"
    by (metis rev_append rev_rev_ident)
  then have "hd ?L = hd (rev ?R)" using R by (metis hd_append2 rev_is_Nil_conv)
  moreover have "?L \<noteq> []"
  proof
    assume "?L = []"
    then show False using R by (metis dropWhile.simps(1) rev.simps(1))
  qed
  then have "\<not> isspace (hd ?L)" by (rule hd_dropWhile)
  ultimately show "\<not> isspace (hd (strip m))" using s by simp
qed

lemma strip_keep:
  assumes "B \<noteq> []" "\<not> isspace (hd B)" "\<not> isspace (last B)" "\<forall>c \<in> set a. isspace c"
    "\<forall>c \<in> set ws. isspace c"
  shows "strip (a @ B @ ws) = B"
proof -
  obtain x B' where B: "B = x # B'" using assms(1) by (cases B) auto
  have "lstrip (a @ B @ ws) = dropWhile isspace (B @ ws)"
    using assms(4) by (simp add: lstrip_def dropWhile_append2)
  also have "\<dots> = B @ ws" using B assms(2) by simp
  finally have l: "lstrip (a @ B @ ws) = B @ ws" .
  have "dropWhile isspace (rev ws @ rev B) = dropWhile isspace (rev B)"
    using assms(5) by (intro dropWhile_append2) simp
  also have "\<dots> = rev B"
    using assms(1,3) by (cases "rev B") (auto simp: last_rev [symmetric] hd_rev)
  finally show ?thesis by (simp add: strip_def l rstrip_def)
qed

lemma strip_pad:
  assumes "\<forall>c \<in> set a. isspace c" "\<forall>c \<in> set ws. isspace c"
  shows "strip (a @ strip m @ ws) = strip m"
proof (cases "strip m = []")
  case True
  have "\<forall>c \<in> set (a @ ws). isspace c" using assms by auto
  then have "strip (a @ ws) = []" by (rule strip_all_space)
  then show ?thesis using True by simp
next
  case False
  then show ?thesis using strip_ends [OF False] assms by (intro strip_keep) auto
qed

lemma joined_Cons: "joined ((t, p) # ps) = delimiter_line t @ p @ joined ps"
  by (simp add: joined_def)

lemma joined_append: "joined (ps @ qs) = joined ps @ joined qs"
  by (simp add: joined_def)

lemma nth_pairs:
  "i < length ps \<Longrightarrow> concat (map (\<lambda>(t, p). [t, p]) ps) ! (2 * i + 1) = snd (ps ! i)"
proof (induction ps arbitrary: i)
  case Nil
  then show ?case by simp
next
  case (Cons a ps)
  obtain t p where a: "a = (t, p)" by (cases a)
  show ?case
  proof (cases i)
    case 0
    then show ?thesis using a by simp
  next
    case (Suc j)
    then have "j < length ps" using Cons.prems by simp
    then have "concat (map (\<lambda>(t, p). [t, p]) ps) ! (2 * j + 1) = snd (ps ! j)" by (rule Cons.IH)
    then show ?thesis using a Suc by simp
  qed
qed

lemma re_split_joined:
  "line_segments ps \<Longrightarrow>
   2 * length ps + 1 \<le> length (re_split delim_pat True (joined ps))
   \<and> (length (re_split delim_pat True (joined ps)) = 2 * length ps + 1
      \<longrightarrow> re_split delim_pat True (joined ps) = [] # concat (map (\<lambda>(t, p). [t, p]) ps))"
proof (induction ps)
  case Nil
  have "re_split delim_pat True [] = [[]]" by (rule re_split_Nil) (rule delim_consumes)
  then show ?case by (simp add: joined_def)
next
  case (Cons a ps)
  obtain t p where a: "a = (t, p)" by (cases a)
  let ?X = "re_split delim_pat False p"
  let ?Y = "re_split delim_pat True (joined ps)"
  have t: "t \<noteq> []" "NL \<notin> set t" and p: "at_eol p" "ps = [] \<or> (p \<noteq> [] \<and> last p = NL)"
    and ls: "line_segments ps"
    using Cons.prems a by simp_all
  have eol: "at_eol (p @ joined ps)"
  proof (cases "p = []")
    case True
    then have "ps = []" using p(2) by simp
    then show ?thesis using True by (simp add: joined_def)
  next
    case False
    then show ?thesis using p(1) by (cases p) auto
  qed
  have 1: "re_split delim_pat True (joined (a # ps)) = [] # t # re_split delim_pat False (p @ joined ps)"
    using re_split_delimiter_line [OF t eol] a by (simp add: joined_Cons)
  have X: "?X \<noteq> []" and Y: "?Y \<noteq> []" using re_split_odd by blast+
  have 2: "re_split delim_pat False (p @ joined ps) = glue ?X ?Y"
  proof (cases "ps = []")
    case True
    have "?Y = [[]]" using True re_split_Nil [of delim_pat True, OF delim_consumes]
      by (simp add: joined_def)
    then show ?thesis using True X by (simp add: joined_def glue_empty)
  next
    case False
    then have "p \<noteq> []" "last p = NL" using p(2) by simp_all
    then show ?thesis using re_split_append [OF delim_line, of p False "joined ps"] delim_consumes
      by blast
  qed
  have len: "length (glue ?X ?Y) + 1 = length ?X + length ?Y" using X Y by (rule length_glue)
  have lx: "1 \<le> length ?X" using X by (cases ?X) auto
  have IH: "2 * length ps + 1 \<le> length ?Y"
    "length ?Y = 2 * length ps + 1 \<Longrightarrow> ?Y = [] # concat (map (\<lambda>(t, p). [t, p]) ps)"
    using Cons.IH [OF ls] by simp_all
  have tot: "length (re_split delim_pat True (joined (a # ps))) = 1 + length ?X + length ?Y"
    using 1 2 len by simp
  have A: "2 * length (a # ps) + 1 \<le> length (re_split delim_pat True (joined (a # ps)))"
    using tot lx IH(1) by simp
  have B: "re_split delim_pat True (joined (a # ps)) = [] # concat (map (\<lambda>(t, p). [t, p]) (a # ps))"
    if "length (re_split delim_pat True (joined (a # ps))) = 2 * length (a # ps) + 1"
  proof -
    have "length ?X = 1" "length ?Y = 2 * length ps + 1" using that tot lx IH(1) by simp_all
    then have "?X = [p]" "?Y = [] # concat (map (\<lambda>(t, p). [t, p]) ps)"
      using re_split_single IH(2) by blast+
    then show ?thesis using 1 2 a by (simp add: glue_def)
  qed
  show ?case using A B by blast
qed

lemma foldl_append_concat: "foldl (\<lambda>acc x. acc @ f x) a xs = a @ concat (map f xs)"
  by (induction xs arbitrary: a) simp_all

lemma full_content_joined:
  "full_content parse book chs
     = joined (map (\<lambda>ch. (title ch, [NL, NL] @ chapter_markdown parse book ch @ [NL, NL])) chs)"
proof -
  have "full_content parse book chs
      = foldl (\<lambda>acc x. acc @ (''=== '' @ title x @ '' ==='' @ [NL, NL]
                         @ chapter_markdown parse book x @ [NL, NL])) [] chs"
    by (simp add: full_content_def)
  also have "\<dots> = concat (map (\<lambda>x. ''=== '' @ title x @ '' ==='' @ [NL, NL]
                         @ chapter_markdown parse book x @ [NL, NL]) chs)"
    by (subst foldl_append_concat) simp
  finally show ?thesis by (simp add: joined_def delimiter_line_def comp_def)
qed

lemma line_segments_chapters:
  "\<forall>ch \<in> set cs. title ch \<noteq> [] \<and> NL \<notin> set (title ch) \<Longrightarrow> T \<noteq> [] \<Longrightarrow> NL \<notin> set T
   \<Longrightarrow> at_eol Q
   \<Longrightarrow> line_segments (map (\<lambda>ch. (title ch, [NL, NL] @ f ch @ [NL, NL])) cs @ [(T, Q)])"
  by (induction cs) auto

lemma hd_joined: "hd (joined ps @ delimiter_line T @ Q) = CHR ''=''"
  by (cases ps) (auto simp: joined_def delimiter_line_def)

lemma isspace_NL: "isspace NL"
  by (simp add: isspace_def NL_def)

lemma joined_buffer_shape:
  assumes titles: "\<forall>ch \<in> set (cs @ [c]). title ch \<noteq> [] \<and> NL \<notin> set (title ch)"
  shows "strip (strip (full_content parse book (cs @ [c])) @ [NL])
     = joined (map (\<lambda>ch. (title ch, [NL, NL] @ chapter_markdown parse book ch @ [NL, NL])) cs
               @ [(title c, if chapter_markdown parse book c = [] then []
                            else [NL, NL] @ chapter_markdown parse book c)])"
proof -
  let ?md = "chapter_markdown parse book c"
  let ?pre = "joined (map (\<lambda>ch. (title ch, [NL, NL] @ chapter_markdown parse book ch @ [NL, NL])) cs)"
  let ?Q = "if ?md = [] then [] else [NL, NL] @ ?md"
  let ?B = "?pre @ delimiter_line (title c) @ ?Q"
  let ?ws = "if ?md = [] then [NL, NL, NL, NL] else [NL, NL]"
  have md: "?md = strip (foldl (\<lambda>content element. content @ element_markdown element) []
              (find_all [''h1'', ''h2'', ''h3'', ''h4'', ''h5'', ''h6'', ''p'', ''strong'', ''b'',
                         ''em'', ''i'', ''u''] (parse (get_content (book ! item c)))))"
    by (simp add: chapter_markdown_def html_to_markdown_def)
  have full: "full_content parse book (cs @ [c]) = ?B @ ?ws"
    by (simp add: full_content_joined joined_append joined_def)
  have ne: "?B \<noteq> []" by (simp add: delimiter_line_def)
  have hd: "\<not> isspace (hd ?B)" by (simp only: hd_joined) (simp add: isspace_def)
  have last: "\<not> isspace (last ?B)"
  proof (cases "?md = []")
    case True
    then show ?thesis by (simp add: delimiter_line_def isspace_def)
  next
    case False
    then have "\<not> isspace (last ?md)" using strip_ends(2) md by metis
    then show ?thesis using False by simp
  qed
  have ws: "\<forall>c \<in> set ?ws. isspace c" by (simp add: isspace_NL)
  have 1: "strip (full_content parse book (cs @ [c])) = ?B"
    using strip_keep [OF ne hd last, of "[]" ?ws] ws full by simp
  have 2: "strip (?B @ [NL]) = ?B"
    using strip_keep [OF ne hd last, of "[]" "[NL]"] by (simp add: isspace_NL)
  show ?thesis unfolding 1 2 by (simp add: joined_append joined_def)
qed

text \<open>
  C2 (as stated): whenever the number of chapters and the number of delimiter lines found
  are the same, the trimmed \<open>i\<close>-th body of the split is the markup of chapter \<open>i\<close>. The
  book below has one chapter; its title element is empty and its paragraph is the text
  \<^verbatim>\<open>=== x ===\<close>. The line \<^verbatim>\<open>===  ===\<close> that the join writes for the empty title is no
  delimiter line for the split, the paragraph is one, so one delimiter is found for one
  chapter, and the body after it is empty.
\<close>

theorem C2_blank_title_counterexample:
  "map title (chapters untitled_editor) = [[]]
   \<and> editor_text untitled_editor = ''===  ==='' @ [NL, NL] @ ''=== x ===''
   \<and> delimiters_found (strip (editor_get untitled_editor)) = length (chapters untitled_editor)
   \<and> chapter_markdown untitled_parse (current_book untitled_editor) (chapters untitled_editor ! 0)
       = ''=== x ===''
   \<and> strip (body_after (strip (editor_get untitled_editor)) 0) = []"
  by code_simp

text \<open>
  C2 (amended): when every chapter title is non-empty and has no line break, and the
  number of delimiter lines found in the joined buffer is the number of chapters, then
  for every chapter index \<open>i\<close> the trimmed \<open>i\<close>-th body of the split is the markup of
  chapter \<open>i\<close>.
\<close>

theorem C2_join_split_identity:
  assumes titles: "\<forall>ch \<in> set (chapters st). title ch \<noteq> [] \<and> NL \<notin> set (title ch)"
    and cnt: "delimiters_found (strip (editor_get (load_full_book parse st))) = length (chapters st)"
    and i: "i < length (chapters st)"
  shows "strip (body_after (strip (editor_get (load_full_book parse st))) i)
           = chapter_markdown parse (current_book st) (chapters st ! i)"
proof -
  let ?book = "current_book st"
  let ?md = "chapter_markdown parse ?book"
  have ne: "chapters st \<noteq> []" using i by auto
  then obtain cs c where chs: "chapters st = cs @ [c]" by (metis rev_exhaust)
  define Q where "Q = (if ?md c = [] then [] else [NL, NL] @ ?md c)"
  define ps where "ps = map (\<lambda>ch. (title ch, [NL, NL] @ ?md ch @ [NL, NL])) cs @ [(title c, Q)]"
  let ?buf = "strip (editor_get (load_full_book parse st))"
  have "?buf = strip (strip (full_content parse ?book (cs @ [c])) @ [NL])"
    using ne chs by (simp add: load_full_book_def editor_get_def)
  then have buf: "?buf = joined ps"
    using joined_buffer_shape [of cs c parse ?book] titles chs by (simp add: ps_def Q_def)
  have stripped: "\<exists>m. ?md ch = strip m" for ch
    by (auto simp: chapter_markdown_def html_to_markdown_def)
  have Q: "at_eol Q" by (simp add: Q_def)
  have ls: "line_segments ps"
    unfolding ps_def using titles chs Q by (intro line_segments_chapters) auto
  have len: "length ps = length (chapters st)" by (simp add: ps_def chs)
  let ?X = "re_split delim_pat True (joined ps)"
  have "odd (length ?X)" using re_split_odd by blast
  moreover have "length ?X div 2 = length ps" using cnt buf len by (simp add: delimiters_found_def)
  ultimately have "length ?X = 2 * length ps + 1" by (auto elim!: oddE)
  then have X: "?X = [] # concat (map (\<lambda>(t, p). [t, p]) ps)"
    using re_split_joined [OF ls] by blast
  have "body_after ?buf i = ?X ! (2 * i + 2)" by (simp add: body_after_def buf)
  also have "\<dots> = concat (map (\<lambda>(t, p). [t, p]) ps) ! (2 * i + 1)" by (simp add: X)
  also have "\<dots> = snd (ps ! i)" using i len by (intro nth_pairs) simp
  finally have body: "body_after ?buf i = snd (ps ! i)" .
  obtain m where m: "?md (chapters st ! i) = strip m" using stripped by blast
  show ?thesis
  proof (cases "i < length cs")
    case True
    then have "snd (ps ! i) = [NL, NL] @ ?md (chapters st ! i) @ [NL, NL]"
      by (simp add: ps_def chs nth_append)
    then have "strip (body_after ?buf i) = strip ([NL, NL] @ strip m @ [NL, NL])"
      using body m by simp
    also have "\<dots> = strip m" by (rule strip_pad) (simp_all add: isspace_NL)
    finally show ?thesis using m by simp
  next
    case False
    then have il: "i = length cs" using i chs by simp
    then have c: "chapters st ! i = c" using chs by simp
    have "snd (ps ! i) = Q" using il by (simp add: ps_def nth_append)
    then have b: "body_after ?buf i = Q" using body by simp
    show ?thesis
    proof (cases "?md c = []")
      case True
      then have "Q = []" by (simp add: Q_def)
      then show ?thesis using b c True by (simp add: strip_def lstrip_def rstrip_def)
    next
      case False
      then have "Q = [NL, NL] @ strip m @ []" using m c by (simp add: Q_def)
      then have "strip (body_after ?buf i) = strip ([NL, NL] @ strip m @ [])" using b by simp
      also have "\<dots> = strip m" by (rule strip_pad) (simp_all add: isspace_NL)
      finally show ?thesis using m c by simp
    qed
  qed
qed

theorem C2_example_witness:
  "map title (chapters (example_editor [])) = [''A'', ''B'', ''Chapter 3'']
   \<and> editor_text (load_full_book example_parse (example_editor []))
       = ''=== A ==='' @ [NL, NL] @ ''a'' @ [NL, NL] @ ''=== B ==='' @ [NL, NL] @ ''b''
           @ [NL, NL] @ ''=== Chapter 3 ==='' @ [NL, NL] @ ''c''
   \<and> delimiters_found (strip (editor_get (load_full_book example_parse (example_editor [])))) = 3
   \<and> chapter_markdown example_parse (current_book (example_editor []))
        (chapters (example_editor []) ! 1) = ''b''
   \<and> strip (body_after (strip (editor_get (load_full_book example_parse (example_editor [])))) 1)
       = ''b''"
proof -
  let ?st = "example_editor []"
  have t: "map title (chapters ?st) = [''A'', ''B'', ''Chapter 3'']" by (simp add: example_chapters)
  have h: "\<forall>ch \<in> set (chapters ?st). title ch \<noteq> [] \<and> NL \<notin> set (title ch)"
    by (simp add: example_chapters NL_def)
  have e: "editor_text (load_full_book example_parse ?st)
       = ''=== A ==='' @ [NL, NL] @ ''a'' @ [NL, NL] @ ''=== B ==='' @ [NL, NL] @ ''b''
           @ [NL, NL] @ ''=== Chapter 3 ==='' @ [NL, NL] @ ''c''"
    by code_simp
  have d: "delimiters_found (strip (editor_get (load_full_book example_parse ?st))) = 3"
    by code_simp
  then have d': "delimiters_found (strip (editor_get (load_full_book example_parse ?st)))
      = length (chapters ?st)"
    by (simp add: example_chapters)
  have i: "Suc 0 < length (chapters ?st)" by (simp add: example_chapters)
  have m: "chapter_markdown example_parse (current_book ?st) (chapters ?st ! Suc 0) = ''b''"
    by code_simp
  have "strip (body_after (strip (editor_get (load_full_book example_parse ?st))) (Suc 0))
      = chapter_markdown example_parse (current_book ?st) (chapters ?st ! Suc 0)"
    using C2_join_split_identity [OF h d' i] .
  then show ?thesis using t e d m by simp
qed

section \<open>The round trip from HTML to markup and back\<close>







































end
